theory Spec2Isabelle
  imports Complex_Main "HOL-Library.Word" "HOL-Library.Monad_Syntax"
begin

unbundle bit_operations_syntax

section \<open>Parameter sets of the BFV scheme and their binary encoding\<close>

type_synonym byte = "8 word"
type_synonym uint64 = "64 word"

subsection \<open>The float64 operations used on the noise width\<close>

text \<open>
  A float64 is a finite value, given by the rational number it denotes, an infinity or
  NaN.  The sign of a zero is not kept; it shows in no operation below except a
  division by zero, whose divisor is taken as \<open>+0\<close>.  An operation on finite
  values is the exact operation followed by rounding to the nearest value with a 53-bit
  significand, ties to even (exponents at or above the subnormal bound), and by
  overflow to an infinity from \<open>2 ^ 1024\<close> on.
\<close>

datatype float64 = Finite rat | PosInf | NegInf | NaN

text \<open>The number of binary digits of a positive integer (0 for 0), as \<open>bits.Len64\<close>.\<close>

function len_int :: "int \<Rightarrow> nat" where
  "len_int n = (if n \<le> 0 then 0 else Suc (len_int (n div 2)))"
  by pat_completeness auto
termination
  by (relation "measure nat") auto

declare len_int.simps [simp del]

definition pow2 :: "int \<Rightarrow> rat" where
  "pow2 e = (if 0 \<le> e then 2 ^ nat e else 1 / 2 ^ nat (- e))"

definition ilog2 :: "rat \<Rightarrow> int" where
  "ilog2 x = (if 1 \<le> x then int (len_int \<lfloor>x\<rfloor>) - 1
              else - int (len_int (\<lceil>1 / x\<rceil> - 1)))"

definition round_half_even :: "rat \<Rightarrow> int" where
  "round_half_even m =
     (let f = \<lfloor>m\<rfloor>; d = m - of_int f
      in if d < 1 / 2 then f else if 1 / 2 < d then f + 1
         else if even f then f else f + 1)"

definition f64_round :: "rat \<Rightarrow> rat" where
  "f64_round x =
     (if x = 0 then 0
      else let e = max (ilog2 \<bar>x\<bar> - 52) (- 1074)
           in sgn x * of_int (round_half_even (\<bar>x\<bar> / pow2 e)) * pow2 e)"

text \<open>
  The rounded value overflows when its magnitude is \<open>2 ^ 1024\<close> or more, that is,
  when its binary exponent is 1024 or more.
\<close>

definition f64_of_rat :: "rat \<Rightarrow> float64" where
  "f64_of_rat x =
     (let r = f64_round x
      in if 1024 \<le> ilog2 \<bar>r\<bar> then (if 0 < r then PosInf else NegInf) else Finite r)"

text \<open>The sign of a float64 that is not NaN: \<open>-1\<close>, \<open>0\<close> or \<open>1\<close>.\<close>

definition f64_sign :: "float64 \<Rightarrow> int" where
  "f64_sign a = (case a of Finite x \<Rightarrow> (if x < 0 then - 1 else if x = 0 then 0 else 1)
                 | PosInf \<Rightarrow> 1 | NegInf \<Rightarrow> - 1 | NaN \<Rightarrow> 0)"

definition f64_inf :: "int \<Rightarrow> float64" where
  "f64_inf sign = (if sign = 0 then NaN else if 0 < sign then PosInf else NegInf)"

text \<open>The comparison \<open>==\<close>: NaN is equal to nothing, itself included.\<close>

definition f64_eq :: "float64 \<Rightarrow> float64 \<Rightarrow> bool" where
  "f64_eq a b = (a \<noteq> NaN \<and> b \<noteq> NaN \<and> a = b)"

definition f64_mul :: "float64 \<Rightarrow> float64 \<Rightarrow> float64" where
  "f64_mul a b =
     (if a = NaN \<or> b = NaN then NaN
      else case (a, b) of
             (Finite x, Finite y) \<Rightarrow> f64_of_rat (x * y)
           | _ \<Rightarrow> f64_inf (f64_sign a * f64_sign b))"

definition f64_div :: "float64 \<Rightarrow> float64 \<Rightarrow> float64" where
  "f64_div a b =
     (if a = NaN \<or> b = NaN then NaN
      else case (a, b) of
             (Finite x, Finite y) \<Rightarrow> (if y = 0 then f64_inf (f64_sign a) else f64_of_rat (x / y))
           | (Finite x, _) \<Rightarrow> Finite 0
           | (_, Finite y) \<Rightarrow> f64_inf (f64_sign a * (if y < 0 then - 1 else 1))
           | _ \<Rightarrow> NaN)"

definition f64_of_uint64 :: "uint64 \<Rightarrow> float64" where
  "f64_of_uint64 u = f64_of_rat (of_int (uint u))"

text \<open>
  The conversion \<open>uint64(x)\<close> truncates towards zero.  Where the truncated value is
  not a uint64, and on an infinity or NaN, the language leaves the result to the
  implementation: \<open>impl\<close> stands for what the implementation gives there.
\<close>

definition uint64_of_f64 :: "(float64 \<Rightarrow> uint64) \<Rightarrow> float64 \<Rightarrow> uint64" where
  "uint64_of_f64 impl a =
     (case a of
        Finite x \<Rightarrow>
          (let t = (if 0 \<le> x then \<lfloor>x\<rfloor> else - \<lfloor>- x\<rfloor>)
           in if 0 \<le> t \<and> t < 2 ^ 64 then word_of_int t else impl a)
      | _ \<Rightarrow> impl a)"

definition math_Round :: "float64 \<Rightarrow> float64" where
  \<comment> \<open>nearest integer, halves away from zero; an infinity or NaN is returned as it is\<close>
  "math_Round a = (case a of Finite x \<Rightarrow> Finite (sgn x * of_int \<lfloor>\<bar>x\<bar> + 1 / 2\<rfloor>) | _ \<Rightarrow> a)"

definition bits_Len64 :: "uint64 \<Rightarrow> int" where
  "bits_Len64 x = int (len_int (uint x))"

subsection \<open>Byte buffers\<close>

text \<open>
  Modelled from the spec: the byte buffer of package \<open>utils\<close> (NewBuffer, WriteUint8,
  WriteUint64, WriteUint64Slice, ReadUint8, ReadUint64, ReadUint64Slice) is not among
  the sources.  The encoding is a 3-byte header followed by 64-bit fields; a 64-bit
  field is written as eight bytes, most significant first, and a read consumes the
  bytes it returns.  A read past the end of the buffer is a slice-bounds panic
  (\<open>None\<close>).
\<close>

definition WriteUint8 :: "byte \<Rightarrow> byte list \<Rightarrow> byte list" where
  "WriteUint8 v buf = buf @ [v]"

definition WriteUint64 :: "uint64 \<Rightarrow> byte list \<Rightarrow> byte list" where
  "WriteUint64 v buf =
     buf @ [ucast (drop_bit 56 v), ucast (drop_bit 48 v), ucast (drop_bit 40 v),
            ucast (drop_bit 32 v), ucast (drop_bit 24 v), ucast (drop_bit 16 v),
            ucast (drop_bit 8 v), ucast v]"

fun WriteUint64Slice :: "uint64 list \<Rightarrow> byte list \<Rightarrow> byte list" where
  "WriteUint64Slice [] buf = buf"
| "WriteUint64Slice (v # vs) buf = WriteUint64Slice vs (WriteUint64 v buf)"

definition ReadUint8 :: "byte list \<Rightarrow> (byte \<times> byte list) option" where
  "ReadUint8 buf = (case buf of [] \<Rightarrow> None | v # rest \<Rightarrow> Some (v, rest))"

definition ReadUint64 :: "byte list \<Rightarrow> (uint64 \<times> byte list) option" where
  "ReadUint64 buf =
     (case buf of
        b0 # b1 # b2 # b3 # b4 # b5 # b6 # b7 # rest \<Rightarrow>
          Some (ucast b7 OR push_bit 8 (ucast b6) OR push_bit 16 (ucast b5)
                OR push_bit 24 (ucast b4) OR push_bit 32 (ucast b3)
                OR push_bit 40 (ucast b2) OR push_bit 48 (ucast b1)
                OR push_bit 56 (ucast b0), rest)
      | _ \<Rightarrow> None)"

text \<open>
  ReadUint64Slice fills the receiving slice entry by entry; when the buffer runs out
  the entries already written stay written and the rest keep their old value.  The
  flag tells whether every entry was read.
\<close>

fun ReadUint64Slice :: "uint64 list \<Rightarrow> byte list \<Rightarrow> uint64 list \<times> byte list \<times> bool" where
  "ReadUint64Slice [] buf = ([], buf, True)"
| "ReadUint64Slice (x # xs) buf =
     (case ReadUint64 buf of
        None \<Rightarrow> (x # xs, buf, False)
      | Some (v, buf') \<Rightarrow>
          (case ReadUint64Slice xs buf' of (ys, buf'', ok) \<Rightarrow> (v # ys, buf'', ok)))"

subsection \<open>Parameters\<close>

definition MaxN :: uint64 where
  "MaxN = push_bit 16 1"

definition MaxModuliCount :: uint64 where
  "MaxModuliCount = 34"

record Parameters =
  N :: uint64
  T :: uint64
  Qi :: "uint64 list"
  Pi :: "uint64 list"
  Sigma :: float64

definition logN12Q110 :: "uint64 list" where
  "logN12Q110 = [36028797014376449, 36028797013327873]"

definition logN13Q219 :: "uint64 list" where
  "logN13Q219 = [36028797014376449, 36028797013327873, 36028797010444289, 18014398506729473]"

definition logN14Q441 :: "uint64 list" where
  "logN14Q441 = [72057594036879361, 36028797014376449, 36028797013327873, 36028797010444289,
     36028797005856769, 36028797001138177, 36028796997599233, 36028796996681729]"

definition logN15Q885 :: "uint64 list" where
  "logN15Q885 = [576460752300015617, 576460752298835969, 576460752298180609, 576460752289923073,
     576460752289529857, 576460752289005569, 576460752286253057, 576460752284418049,
     576460752279306241, 576460752273801217, 576460752272228353, 576460752267509761,
     576460752265543681, 576460752260694017, 576460752259645441]"

definition Pi60 :: "uint64 list" where
  "Pi60 = [576460752308273153, 576460752315482113, 576460752319021057, 576460752319414273, 576460752321642497,
     576460752325705729, 576460752328327169, 576460752329113601, 576460752329506817, 576460752329900033,
     576460752331210753, 576460752337502209, 576460752340123649, 576460752342876161, 576460752347201537,
     576460752347332609, 576460752352837633, 576460752354017281, 576460752355065857, 576460752355459073,
     576460752358604801, 576460752364240897, 576460752368435201, 576460752371187713, 576460752373547009,
     576460752374333441, 576460752376692737, 576460752378003457, 576460752378396673, 576460752380755969,
     576460752381411329, 576460752386129921, 576460752395173889, 576460752395960321, 576460752396091393,
     576460752396484609, 576460752399106049, 576460752405135361, 576460752405921793, 576460752409722881,
     576460752410116097, 576460752411033601, 576460752412082177, 576460752416145409, 576460752416931841,
     576460752421257217, 576460752427548673, 576460752429514753, 576460752435281921, 576460752437248001,
     576460752438558721, 576460752441966593, 576460752449044481, 576460752451141633, 576460752451534849,
     576460752462938113, 576460752465952769, 576460752468705281, 576460752469491713, 576460752472375297,
     576460752473948161, 576460752475389953, 576460752480894977, 576460752483254273, 576460752484827137,
     576460752486793217, 576460752486924289, 576460752492691457, 576460752498589697, 576460752498720769,
     576460752499507201, 576460752504225793, 576460752505405441, 576460752507240449, 576460752507764737,
     576460752509206529, 576460752510124033, 576460752510779393, 576460752511959041, 576460752514449409,
     576460752516284417, 576460752519168001, 576460752520347649, 576460752520609793, 576460752522969089,
     576460752523100161, 576460752524279809, 576460752525852673, 576460752526245889, 576460752526508033,
     576460752532013057, 576460752545120257, 576460752550100993, 576460752551804929, 576460752567402497,
     576460752568975361, 576460752573431809, 576460752580902913, 576460752585490433, 576460752586407937]"

text \<open>The float64 value of the literal 3.19.\<close>

definition sigma_3_19 :: float64 where
  "sigma_3_19 = f64_of_rat (319 / 100)"

definition DefaultParams :: "Parameters list" where
  "DefaultParams =
     [\<lparr>N = 4096, T = 65537, Qi = logN12Q110, Pi = drop (length Pi60 - 3) Pi60, Sigma = sigma_3_19\<rparr>,
      \<lparr>N = 8192, T = 65537, Qi = logN13Q219, Pi = drop (length Pi60 - 5) Pi60, Sigma = sigma_3_19\<rparr>,
      \<lparr>N = 16384, T = 65537, Qi = logN14Q441, Pi = drop (length Pi60 - 9) Pi60, Sigma = sigma_3_19\<rparr>,
      \<lparr>N = 32768, T = 65537, Qi = logN15Q885, Pi = drop (length Pi60 - 17) Pi60, Sigma = sigma_3_19\<rparr>]"

text \<open>
  Modelled from the spec: EqualSlice is not among the sources.  Two sequences are equal
  when they have the same entries in the same order.
\<close>

definition EqualSlice :: "uint64 list \<Rightarrow> uint64 list \<Rightarrow> bool" where
  "EqualSlice a b = (a = b)"

text \<open>
  Equals takes two pointers.  A pointer is an address into a store of parameter sets;
  the first test of the source compares the two addresses, the last compares the two
  noise widths with \<open>==\<close>.
\<close>

definition Equals :: "(nat \<Rightarrow> Parameters) \<Rightarrow> nat \<Rightarrow> nat \<Rightarrow> bool" where
  "Equals st p other =
     (if p = other then True
      else N (st p) = N (st other) \<and> EqualSlice (Qi (st p)) (Qi (st other))
           \<and> EqualSlice (Pi (st p)) (Pi (st other)) \<and> f64_eq (Sigma (st p)) (Sigma (st other)))"

text \<open>
  MarshalBinary always returns a nil error; the model returns the bytes.  \<open>impl\<close> is
  the implementation's result of the conversion to uint64 where the language leaves it
  open.
\<close>

definition MarshalBinary :: "(float64 \<Rightarrow> uint64) \<Rightarrow> Parameters \<Rightarrow> byte list" where
  "MarshalBinary impl p =
     (if N p = 0 then []
      else
        let b = [];
            b = WriteUint8 (word_of_int (bits_Len64 (N p) - 1)) b;
            b = WriteUint8 (of_nat (length (Qi p))) b;
            b = WriteUint8 (of_nat (length (Pi p))) b;
            b = WriteUint64 (T p) b;
            b = WriteUint64 (uint64_of_f64 impl (f64_mul (Sigma p) (Finite (2 ^ 32)))) b;
            b = WriteUint64Slice (Qi p) b;
            b = WriteUint64Slice (Pi p) b
        in b)"

datatype unmarshal_error =
    InvalidEncoding    \<comment> \<open>"invalid parameters encoding"\<close>
  | DegreeTooLarge     \<comment> \<open>"polynomial degree is too large"\<close>
  | LenQiTooLarge      \<comment> \<open>"len(Qi) is larger than 34"\<close>
  | LenPiTooLarge      \<comment> \<open>"len(Pi) is larger than 34"\<close>

datatype outcome = Done | Failed unmarshal_error | Panicked

text \<open>
  UnMarshalBinary writes into the structure behind its receiver and returns an error
  value; the model returns the structure as the call leaves it, with the outcome.
\<close>

definition UnMarshalBinary :: "Parameters \<Rightarrow> byte list \<Rightarrow> Parameters \<times> outcome" where
  "UnMarshalBinary p data =
     (if length data < 3 then (p, Failed InvalidEncoding)
      else
        case ReadUint8 data of None \<Rightarrow> (p, Panicked) | Some (v0, b1) \<Rightarrow>
        let p = p\<lparr>N := push_bit (unat v0) 1\<rparr> in
        if MaxN < N p then (p, Failed DegreeTooLarge)
        else
        case ReadUint8 b1 of None \<Rightarrow> (p, Panicked) | Some (v1, b2) \<Rightarrow>
        let lenQi = (ucast v1 :: uint64) in
        if MaxModuliCount < lenQi then (p, Failed LenQiTooLarge)
        else
        case ReadUint8 b2 of None \<Rightarrow> (p, Panicked) | Some (v2, b3) \<Rightarrow>
        let lenPi = (ucast v2 :: uint64) in
        if MaxModuliCount < lenPi then (p, Failed LenPiTooLarge)
        else
        case ReadUint64 b3 of None \<Rightarrow> (p, Panicked) | Some (t, b4) \<Rightarrow>
        let p = p\<lparr>T := t\<rparr> in
        case ReadUint64 b4 of None \<Rightarrow> (p, Panicked) | Some (s, b5) \<Rightarrow>
        let p = p\<lparr>Sigma :=
                  f64_div (math_Round (f64_mul (f64_div (f64_of_uint64 s) (Finite (2 ^ 32)))
                    (Finite 100))) (Finite 100)\<rparr>;
            p = p\<lparr>Qi := replicate (unat lenQi) 0\<rparr>;
            p = p\<lparr>Pi := replicate (unat lenPi) 0\<rparr>
        in
        case ReadUint64Slice (Qi p) b5 of (qs, b6, okQ) \<Rightarrow>
        let p = p\<lparr>Qi := qs\<rparr> in
        if \<not> okQ then (p, Panicked)
        else
        case ReadUint64Slice (Pi p) b6 of (ps, b7, okP) \<Rightarrow>
        let p = p\<lparr>Pi := ps\<rparr> in
        if \<not> okP then (p, Panicked) else (p, Done))"

section \<open>Polynomials, rings and the store\<close>

text \<open>
  A polynomial holds one row of residues for each modulus of its chain and a tag that
  tells whether the rows are in the transform domain.
\<close>

record Poly =
  Coeffs :: "uint64 list list"
  IsNTT :: bool

text \<open>
  The source passes polynomials by pointer.  A pointer is an address into a store, the
  list of all polynomials allocated so far; an allocation appends to the store, so the
  new address is the length of the store before.  An address at or beyond the length of
  the store is a nil or dangling pointer, and using it is a panic.
\<close>

type_synonym addr = nat
type_synonym store = "Poly list"

record Ring =
  RingN :: nat
  Modulus :: "uint64 list"

text \<open>
  A polynomial fits a ring when it has a row for each modulus of the ring and each of
  these rows has a residue for each of the N coefficients.  The loops of the ring
  package index rows and residues up to these bounds; on a polynomial that does not
  fit they run out of range, which is a panic.
\<close>

definition fits :: "Ring \<Rightarrow> Poly \<Rightarrow> bool" where
  "fits r p = (length (Modulus r) \<le> length (Coeffs p) \<and>
     list_all (\<lambda>row. RingN r \<le> length row) (take (length (Modulus r)) (Coeffs p)))"

text \<open>A block of coefficients of exactly the ring's shape.\<close>

definition exact :: "Ring \<Rightarrow> uint64 list list \<Rightarrow> bool" where
  "exact r c = (length c = length (Modulus r) \<and> (\<forall>row \<in> set c. length row = RingN r))"

text \<open>
  Writing the block \<open>new\<close> (one row per modulus, N residues per row) over the
  coefficients \<open>old\<close> in place: rows and residues outside the ring's bounds stay.
\<close>

definition overlay :: "Ring \<Rightarrow> uint64 list list \<Rightarrow> uint64 list list \<Rightarrow> uint64 list list" where
  "overlay r new old =
     map (\<lambda>i. if i < length (Modulus r) then new ! i @ drop (RingN r) (old ! i) else old ! i)
       [0..<length old]"

text \<open>
  Modelled from the spec: the ring package (NewPoly, Copy, Add, MulCoeffsAndAdd and the
  Gaussian sampler's ReadNew) is not among the sources.  Addition is residue-wise
  modular addition over the chain Q; the share of a partial decryption is the
  coefficient-wise product of its two arguments plus the noise already held by the
  destination, each residue reduced by its modulus.
\<close>

definition addmod :: "uint64 \<Rightarrow> uint64 \<Rightarrow> uint64 \<Rightarrow> uint64" where
  "addmod q x y = of_nat ((unat x + unat y) mod unat q)"

definition muladdmod :: "uint64 \<Rightarrow> uint64 \<Rightarrow> uint64 \<Rightarrow> uint64 \<Rightarrow> uint64" where
  "muladdmod q x y z = of_nat ((unat z + unat x * unat y) mod unat q)"

definition copyCoeffs :: "Ring \<Rightarrow> uint64 list list \<Rightarrow> uint64 list list" where
  "copyCoeffs r a =
     map (\<lambda>i. map (\<lambda>j. a ! i ! j) [0..<RingN r]) [0..<length (Modulus r)]"

definition addCoeffs :: "Ring \<Rightarrow> uint64 list list \<Rightarrow> uint64 list list \<Rightarrow> uint64 list list" where
  "addCoeffs r a b =
     map (\<lambda>i. map (\<lambda>j. addmod (Modulus r ! i) (a ! i ! j) (b ! i ! j)) [0..<RingN r])
       [0..<length (Modulus r)]"

definition mulAddCoeffs ::
  "Ring \<Rightarrow> uint64 list list \<Rightarrow> uint64 list list \<Rightarrow> uint64 list list \<Rightarrow> uint64 list list" where
  "mulAddCoeffs r a b c =
     map (\<lambda>i. map (\<lambda>j. muladdmod (Modulus r ! i) (a ! i ! j) (b ! i ! j) (c ! i ! j)) [0..<RingN r])
       [0..<length (Modulus r)]"

definition NewPoly :: "Ring \<Rightarrow> store \<Rightarrow> addr \<times> store" where
  "NewPoly r st =
     (length st,
      st @ [\<lparr>Coeffs = replicate (length (Modulus r)) (replicate (RingN r) 0), IsNTT = False\<rparr>])"

definition Copy :: "Ring \<Rightarrow> addr \<Rightarrow> addr \<Rightarrow> store \<Rightarrow> store option" where
  "Copy r p0 p1 st =
     (if \<not> (p0 < length st \<and> p1 < length st) then None
      else if p0 = p1 then Some st
      else if \<not> (fits r (st ! p0) \<and> fits r (st ! p1)) then None
      else Some (st[p1 := (st ! p1)\<lparr>Coeffs :=
             overlay r (copyCoeffs r (Coeffs (st ! p0))) (Coeffs (st ! p1))\<rparr>]))"

definition Add :: "Ring \<Rightarrow> addr \<Rightarrow> addr \<Rightarrow> addr \<Rightarrow> store \<Rightarrow> store option" where
  "Add r p1 p2 p3 st =
     (if \<not> (p1 < length st \<and> p2 < length st \<and> p3 < length st) then None
      else if \<not> (fits r (st ! p1) \<and> fits r (st ! p2) \<and> fits r (st ! p3)) then None
      else Some (st[p3 := (st ! p3)\<lparr>Coeffs :=
             overlay r (addCoeffs r (Coeffs (st ! p1)) (Coeffs (st ! p2))) (Coeffs (st ! p3))\<rparr>]))"

definition MulCoeffsAndAdd :: "Ring \<Rightarrow> addr \<Rightarrow> addr \<Rightarrow> addr \<Rightarrow> store \<Rightarrow> store option" where
  "MulCoeffsAndAdd r p1 p2 p3 st =
     (if \<not> (p1 < length st \<and> p2 < length st \<and> p3 < length st) then None
      else if \<not> (fits r (st ! p1) \<and> fits r (st ! p2) \<and> fits r (st ! p3)) then None
      else Some (st[p3 := (st ! p3)\<lparr>Coeffs :=
             overlay r (mulAddCoeffs r (Coeffs (st ! p1)) (Coeffs (st ! p2)) (Coeffs (st ! p3)))
               (Coeffs (st ! p3))\<rparr>]))"

text \<open>
  The Gaussian sampler: \<open>noise k\<close> is the block of residues of its \<open>k\<close>-th draw,
  \<open>drawn\<close> counts the draws made.  ReadNew allocates a polynomial and fills it with
  the next draw.
\<close>

record GaussianSampler =
  noise :: "nat \<Rightarrow> uint64 list list"
  drawn :: nat

definition ReadNew :: "GaussianSampler \<Rightarrow> store \<Rightarrow> addr \<times> GaussianSampler \<times> store" where
  "ReadNew smp st =
     (length st, smp\<lparr>drawn := Suc (drawn smp)\<rparr>,
      st @ [\<lparr>Coeffs = noise smp (drawn smp), IsNTT = False\<rparr>])"

section \<open>The multi-key decryptor\<close>

record SecretKey =
  Value :: addr

record MKSecretKey =
  key :: SecretKey

record mkDecryptor =
  ringQ :: Ring
  samplerGaussian :: GaussianSampler

text \<open>A plaintext is an element with a list of pointers to polynomials.\<close>

record Element =
  elValue :: "addr list"

type_synonym Plaintext = Element

text \<open>
  PartDec.  The parameter \<open>out\<close> is a pointer held in a local variable of the callee.
  The first statement stores the pointer returned by ReadNew in that variable; the
  multiplication then accumulates into the polynomial the variable now points to.
  The function returns nothing.
\<close>

definition PartDec ::
  "mkDecryptor \<Rightarrow> addr \<Rightarrow> MKSecretKey \<Rightarrow> addr \<Rightarrow> store \<Rightarrow> (mkDecryptor \<times> store) option" where
  "PartDec dec ct sk out st =
     (case ReadNew (samplerGaussian dec) st of (out, smp, st) \<Rightarrow>
        case MulCoeffsAndAdd (ringQ dec) ct (Value (key sk)) out st of
          None \<Rightarrow> None
        | Some st \<Rightarrow> Some (dec\<lparr>samplerGaussian := smp\<rparr>, st))"

text \<open>The loop of MergeDec over the shares, in their order.\<close>

fun MergeDec_loop :: "Ring \<Rightarrow> addr \<Rightarrow> addr list \<Rightarrow> store \<Rightarrow> store option" where
  "MergeDec_loop r res [] st = Some st"
| "MergeDec_loop r res (k # ks) st =
     (case Add r res k res st of None \<Rightarrow> None | Some st \<Rightarrow> MergeDec_loop r res ks st)"

definition MergeDec :: "mkDecryptor \<Rightarrow> addr \<Rightarrow> addr list \<Rightarrow> store \<Rightarrow> (Plaintext \<times> store) option" where
  "MergeDec dec c0 partialKeys st =
     (case NewPoly (ringQ dec) st of (res, st) \<Rightarrow>
        case Copy (ringQ dec) c0 res st of
          None \<Rightarrow> None
        | Some st \<Rightarrow>
            (case MergeDec_loop (ringQ dec) res partialKeys st of
               None \<Rightarrow> None
             | Some st \<Rightarrow> Some (\<lparr>elValue = [res]\<rparr>, st)))"

subsection \<open>A small instance\<close>

text \<open>
  A ring with two coefficients and the single modulus 17, a sampler whose every draw is
  the block \<open>[[1, 1]]\<close>, and a store of three polynomials.
\<close>

abbreviation ring17 :: Ring where
  "ring17 \<equiv> \<lparr>RingN = 2, Modulus = [17]\<rparr>"

abbreviation dec17 :: mkDecryptor where
  "dec17 \<equiv> \<lparr>ringQ = ring17, samplerGaussian = \<lparr>noise = (\<lambda>k. [[1, 1]]), drawn = 0\<rparr>\<rparr>"

abbreviation store17 :: store where
  "store17 \<equiv> [\<lparr>Coeffs = [[2, 3]], IsNTT = False\<rparr>, \<lparr>Coeffs = [[4, 5]], IsNTT = False\<rparr>,
     \<lparr>Coeffs = [[0, 0]], IsNTT = False\<rparr>]"


section \<open>The encryptor\<close>

subsection \<open>State\<close>

text \<open>
  The polynomials an encryption call can reach, named after the expressions of the
  source that denote them.  A component \<open>P\<close> that is nil in the source is the
  polynomial without rows.
\<close>

datatype reg =
    CtValue nat                 \<comment> \<open>\<open>ciphertext.Value[i]\<close>\<close>
  | PtValue                     \<comment> \<open>\<open>plaintext.Value\<close>\<close>
  | Crp                         \<comment> \<open>the common reference polynomial \<open>crp\<close>\<close>
  | PoolQ nat                   \<comment> \<open>\<open>enc.poolQ[i]\<close>\<close>
  | PoolP nat                   \<comment> \<open>\<open>enc.poolP[i]\<close>\<close>
  | PkQ nat | PkP nat           \<comment> \<open>\<open>enc.pk.Value[i].Q\<close> and \<open>.P\<close>\<close>
  | SkQ | SkP                   \<comment> \<open>\<open>enc.sk.Value.Q\<close> and \<open>.P\<close>\<close>
  | RgswQ nat nat nat nat       \<comment> \<open>\<open>ciphertext.Value[i][j][a][b].Q\<close> of an RGSW ciphertext\<close>
  | RgswP nat nat nat nat       \<comment> \<open>\<open>ciphertext.Value[i][j][a][b].P\<close>\<close>

text \<open>A call to the ring package or to a sampler, with its integer arguments.\<close>

datatype call = Call string "int list"

record encState =
  mem :: "reg \<Rightarrow> Poly"
  draws :: nat                  \<comment> \<open>number of samples drawn from the PRNG so far\<close>
  calls :: "call list"          \<comment> \<open>the calls made so far, oldest first\<close>
  rgswRows :: nat               \<comment> \<open>\<open>len(ciphertext.Value)\<close> of the RGSW ciphertext\<close>
  rgswCols :: nat               \<comment> \<open>\<open>len(ciphertext.Value[i])\<close>, the same for every \<open>i\<close>\<close>

text \<open>
  A step either returns, in a new state, or panics with a message; the state of a panic
  is the one in which the panicking call or statement was started.
\<close>

datatype res = Ok encState | Panic string encState

type_synonym step = "encState \<Rightarrow> res"

fun seq :: "step list \<Rightarrow> step" where
  "seq [] s = Ok s"
| "seq (f # fs) s = (case f s of Ok s' \<Rightarrow> seq fs s' | Panic m s' \<Rightarrow> Panic m s')"

subsection \<open>The ring capability\<close>

text \<open>
  The ring package, the samplers and the parameters are not among the sources; what the
  encryptor needs of them is taken as a parameter.  \<open>ringQ_op name args i ins\<close> is
  row \<open>i\<close> of the result of the operation \<open>name\<close> of the ring over Q, called with
  the integer arguments \<open>args\<close> on operands whose rows are \<open>ins\<close>; \<open>ringP_op\<close> is
  the same over P; \<open>sample name d i\<close> is row \<open>i\<close> of draw number \<open>d\<close> of a sampler.
\<close>

record ringCap =
  ringQ_op :: "string \<Rightarrow> int list \<Rightarrow> nat \<Rightarrow> uint64 list list list \<Rightarrow> uint64 list"
  ringP_op :: "string \<Rightarrow> int list \<Rightarrow> nat \<Rightarrow> uint64 list list list \<Rightarrow> uint64 list"
  sample :: "string \<Rightarrow> nat \<Rightarrow> nat \<Rightarrow> uint64 list"
  CRed :: "uint64 \<Rightarrow> uint64 \<Rightarrow> uint64"          \<comment> \<open>\<open>ring.CRed\<close>\<close>
  ringQ_N :: nat                                      \<comment> \<open>\<open>ringQ.N\<close>\<close>
  ringQ_Modulus :: "uint64 list"                      \<comment> \<open>\<open>ringQ.Modulus\<close>\<close>
  ringP_Modulus :: "uint64 list"                      \<comment> \<open>\<open>params.RingP().Modulus\<close>\<close>
  DecompRNS :: "int \<Rightarrow> int \<Rightarrow> int"                  \<comment> \<open>\<open>params.DecompRNS\<close>\<close>
  DecompBIT :: "int \<Rightarrow> int \<Rightarrow> int"                  \<comment> \<open>\<open>params.DecompBIT\<close>\<close>
  LogBase2 :: nat                                     \<comment> \<open>\<open>params.LogBase2()\<close>\<close>
  hasP :: bool                                        \<comment> \<open>\<open>enc.basisextender != nil\<close>\<close>

text \<open>
  Modelled from the spec: the level of a polynomial is the index of its highest row,
  \<open>-1\<close> without rows; a ciphertext's level is that of its first component.  An
  operation at level \<open>l\<close> reads and writes the rows \<open>0..l\<close> of its operands in place
  and leaves the other rows and the domain tag alone; on an operand that has no row
  \<open>l\<close> it runs out of range, a fatal violation.
\<close>

definition Level :: "Poly \<Rightarrow> int" where
  "Level p = int (length (Coeffs p)) - 1"

definition reaches :: "encState \<Rightarrow> reg \<times> int \<Rightarrow> bool" where
  "reaches s x = (snd x \<le> Level (mem s (fst x)))"

definition writeRows :: "int \<Rightarrow> (nat \<Rightarrow> uint64 list) \<Rightarrow> Poly \<Rightarrow> Poly" where
  "writeRows lvl f p =
     p\<lparr>Coeffs := map (\<lambda>i. if int i \<le> lvl then f i else Coeffs p ! i) [0..<length (Coeffs p)]\<rparr>"

definition logCall :: "string \<Rightarrow> int list \<Rightarrow> encState \<Rightarrow> encState" where
  "logCall name args s = s\<lparr>calls := calls s @ [Call name args]\<rparr>"

definition update ::
  "(string \<Rightarrow> int list \<Rightarrow> nat \<Rightarrow> uint64 list list list \<Rightarrow> uint64 list) \<Rightarrow> string \<Rightarrow> int list \<Rightarrow>
   (reg \<times> int) list \<Rightarrow> reg \<times> int \<Rightarrow> step" where
  "update F name args srcs dst s =
     (if list_all (reaches s) (dst # srcs)
      then Ok (s\<lparr>mem := (mem s)(fst dst :=
                 writeRows (snd dst) (\<lambda>i. F name args i (map (\<lambda>x. Coeffs (mem s (fst x))) srcs))
                   (mem s (fst dst)))\<rparr>)
      else Panic ''runtime error: index out of range'' s)"

text \<open>An operation of the ring over Q at one level.\<close>

definition ringQ_Lvl :: "ringCap \<Rightarrow> string \<Rightarrow> int \<Rightarrow> reg list \<Rightarrow> reg \<Rightarrow> step" where
  "ringQ_Lvl C name lvl srcs dst s =
     update (ringQ_op C) name [lvl] (map (\<lambda>r. (r, lvl)) srcs) (dst, lvl)
       (logCall (''ringQ.'' @ name) [lvl] s)"

text \<open>
  Modelled from the spec: an operation of the ring over Q and P works on pairs (Q part,
  P part), on the Q parts at \<open>levelQ\<close> and, when the parameters have an auxiliary
  chain, on the P parts at \<open>levelP\<close>.
\<close>

definition ringQP :: "ringCap \<Rightarrow> string \<Rightarrow> int \<Rightarrow> int \<Rightarrow> (reg \<times> reg) list \<Rightarrow> reg \<times> reg \<Rightarrow> step" where
  "ringQP C name levelQ levelP srcs dst s =
     seq [update (ringQ_op C) name [levelQ, levelP] (map (\<lambda>x. (fst x, levelQ)) srcs) (fst dst, levelQ),
          if hasP C
          then update (ringP_op C) name [levelQ, levelP] (map (\<lambda>x. (snd x, levelP)) srcs) (snd dst, levelP)
          else Ok]
       (logCall (''ringQP.'' @ name) [levelQ, levelP] s)"

text \<open>Extension of a polynomial over Q, read from its row 0, to the rows \<open>0..levelP\<close> over P.\<close>

definition ExtendBasisSmallNormAndCenter :: "ringCap \<Rightarrow> reg \<Rightarrow> int \<Rightarrow> reg \<Rightarrow> step" where
  "ExtendBasisSmallNormAndCenter C polyInQ levelP polyOutP s =
     update (ringP_op C) ''ExtendBasisSmallNormAndCenter'' [levelP] [(polyInQ, 0)] (polyOutP, levelP)
       (logCall ''ringQP.ExtendBasisSmallNormAndCenter'' [levelP] s)"

definition ModDownQPtoQ :: "ringCap \<Rightarrow> int \<Rightarrow> int \<Rightarrow> reg \<Rightarrow> reg \<Rightarrow> reg \<Rightarrow> step" where
  "ModDownQPtoQ C levelQ levelP p1Q p1P p2Q s =
     update (ringQ_op C) ''ModDownQPtoQ'' [levelQ, levelP] [(p1Q, levelQ), (p1P, levelP)] (p2Q, levelQ)
       (logCall ''basisextender.ModDownQPtoQ'' [levelQ, levelP] s)"

text \<open>A sampler fills the rows \<open>0..level\<close> of a polynomial with its next draw.\<close>

definition ReadLvl :: "ringCap \<Rightarrow> string \<Rightarrow> int \<Rightarrow> reg \<Rightarrow> step" where
  "ReadLvl C sampler level pol s =
     (let s = logCall (sampler @ ''.ReadLvl'') [level] s in
      if reaches s (pol, level)
      then Ok (s\<lparr>mem := (mem s)(pol := writeRows level (sample C sampler (draws s)) (mem s pol)),
                 draws := Suc (draws s)\<rparr>)
      else Panic ''runtime error: index out of range'' s)"

text \<open>The Gaussian sampler adds its next draw to the rows \<open>0..level\<close> of a polynomial.\<close>

definition ReadAndAddLvl :: "ringCap \<Rightarrow> string \<Rightarrow> int \<Rightarrow> reg \<Rightarrow> step" where
  "ReadAndAddLvl C sampler level pol s =
     (let s = logCall (sampler @ ''.ReadAndAddLvl'') [level] s in
      if reaches s (pol, level)
      then Ok (s\<lparr>mem := (mem s)(pol :=
                   writeRows level
                     (\<lambda>i. ringQ_op C ''Add'' [level] i
                        [Coeffs (mem s pol), map (sample C sampler (draws s)) [0..<length (Coeffs (mem s pol))]])
                     (mem s pol)),
                 draws := Suc (draws s)\<rparr>)
      else Panic ''runtime error: index out of range'' s)"

text \<open>
  Modelled from the spec: \<open>ring.CopyValues\<close> copies the residues of its first argument
  verbatim over those of the second, row by row, and not the tag.
\<close>

definition CopyValues :: "reg \<Rightarrow> reg \<Rightarrow> step" where
  "CopyValues p0 p1 s =
     (let s = logCall ''ring.CopyValues'' [] s in
      if length (Coeffs (mem s p1)) \<le> length (Coeffs (mem s p0))
      then Ok (s\<lparr>mem := (mem s)(p1 := (mem s p1)\<lparr>Coeffs :=
                   map (\<lambda>i. Coeffs (mem s p0) ! i) [0..<length (Coeffs (mem s p1))]\<rparr>)\<rparr>)
      else Panic ''runtime error: index out of range'' s)"

text \<open>The assignment \<open>p.IsNTT = b\<close>.\<close>

definition setIsNTT :: "reg \<Rightarrow> bool \<Rightarrow> step" where
  "setIsNTT p b s = Ok (s\<lparr>mem := (mem s)(p := (mem s p)\<lparr>IsNTT := b\<rparr>)\<rparr>)"

text \<open>
  The assignment \<open>p.Coeffs = p.Coeffs[:n]\<close>.  A slice expression whose bound is
  negative or exceeds what the slice holds is a panic.
\<close>

definition truncate :: "reg \<Rightarrow> int \<Rightarrow> step" where
  "truncate p n s =
     (if 0 \<le> n \<and> n \<le> int (length (Coeffs (mem s p)))
      then Ok (s\<lparr>mem := (mem s)(p := (mem s p)\<lparr>Coeffs := take (nat n) (Coeffs (mem s p))\<rparr>)\<rparr>)
      else Panic ''runtime error: slice bounds out of range'' s)"

subsection \<open>Encryption under a public key and under a secret key\<close>

definition pkEncryptor_encrypt :: "ringCap \<Rightarrow> step" where
  "pkEncryptor_encrypt C s0 =
     (let levelQ = min (Level (mem s0 PtValue)) (Level (mem s0 (CtValue 0)));
          levelP = 0;
          poolQ0 = PoolQ 0; poolP0 = PoolP 0; poolP1 = PoolP 1; poolP2 = PoolP 2;
          ciphertextNTT = IsNTT (mem s0 (CtValue 0));
          plaintextNTT = IsNTT (mem s0 PtValue);
          u = (poolQ0, poolP2);
          ct0QP = (CtValue 0, poolP0);
          ct1QP = (CtValue 1, poolP1);
          e = (poolQ0, poolP2)
      in seq
        [ReadLvl C ''ternarySampler'' levelQ (fst u),
         ExtendBasisSmallNormAndCenter C (fst u) levelP (snd u),
         ringQP C ''NTTLvl'' levelQ levelP [u] u,
         ringQP C ''MFormLvl'' levelQ levelP [u] u,
         ringQP C ''MulCoeffsMontgomeryLvl'' levelQ levelP [u, (PkQ 0, PkP 0)] ct0QP,
         ringQP C ''MulCoeffsMontgomeryLvl'' levelQ levelP [u, (PkQ 1, PkP 1)] ct1QP,
         ringQP C ''InvNTTLvl'' levelQ levelP [ct0QP] ct0QP,
         ringQP C ''InvNTTLvl'' levelQ levelP [ct1QP] ct1QP,
         ReadLvl C ''gaussianSampler'' levelQ (fst e),
         ExtendBasisSmallNormAndCenter C (fst e) levelP (snd e),
         ringQP C ''AddLvl'' levelQ levelP [ct0QP, e] ct0QP,
         ReadLvl C ''gaussianSampler'' levelQ (fst e),
         ExtendBasisSmallNormAndCenter C (fst e) levelP (snd e),
         ringQP C ''AddLvl'' levelQ levelP [ct1QP, e] ct1QP,
         ModDownQPtoQ C levelQ levelP (fst ct0QP) (snd ct0QP) (fst ct0QP),
         ModDownQPtoQ C levelQ levelP (fst ct1QP) (snd ct1QP) (fst ct1QP),
         if ciphertextNTT then
           seq [if \<not> plaintextNTT
                then ringQ_Lvl C ''AddLvl'' levelQ [CtValue 0, PtValue] (CtValue 0) else Ok,
                ringQ_Lvl C ''NTTLvl'' levelQ [CtValue 0] (CtValue 0),
                ringQ_Lvl C ''NTTLvl'' levelQ [CtValue 1] (CtValue 1),
                if plaintextNTT
                then ringQ_Lvl C ''AddLvl'' levelQ [CtValue 0, PtValue] (CtValue 0) else Ok]
         else
           (if \<not> plaintextNTT
            then ringQ_Lvl C ''AddLvl'' levelQ [CtValue 0, PtValue] (CtValue 0)
            else seq [ringQ_Lvl C ''InvNTTLvl'' levelQ [PtValue] poolQ0,
                      ringQ_Lvl C ''AddLvl'' levelQ [CtValue 0, poolQ0] (CtValue 0)]),
         (\<lambda>s. setIsNTT (CtValue 1) (IsNTT (mem s (CtValue 0))) s),
         truncate (CtValue 0) (levelQ + 1),
         truncate (CtValue 1) (levelQ + 1)] s0)"

definition pkEncryptor_encryptNoP :: "ringCap \<Rightarrow> step" where
  "pkEncryptor_encryptNoP C s0 =
     (let levelQ = min (Level (mem s0 PtValue)) (Level (mem s0 (CtValue 0)));
          poolQ0 = PoolQ 0;
          ciphertextNTT = IsNTT (mem s0 (CtValue 0));
          plaintextNTT = IsNTT (mem s0 PtValue)
      in seq
        [ReadLvl C ''ternarySampler'' levelQ poolQ0,
         ringQ_Lvl C ''NTTLvl'' levelQ [poolQ0] poolQ0,
         ringQ_Lvl C ''MFormLvl'' levelQ [poolQ0] poolQ0,
         ringQ_Lvl C ''MulCoeffsMontgomeryLvl'' levelQ [poolQ0, PkQ 0] (CtValue 0),
         ringQ_Lvl C ''MulCoeffsMontgomeryLvl'' levelQ [poolQ0, PkQ 1] (CtValue 1),
         if ciphertextNTT then
           seq [ReadLvl C ''gaussianSampler'' levelQ poolQ0,
                ringQ_Lvl C ''NTTLvl'' levelQ [poolQ0] poolQ0,
                ringQ_Lvl C ''AddLvl'' levelQ [CtValue 1, poolQ0] (CtValue 1),
                ReadLvl C ''gaussianSampler'' levelQ poolQ0,
                if \<not> plaintextNTT then
                  seq [ringQ_Lvl C ''AddLvl'' levelQ [poolQ0, PtValue] poolQ0,
                       ringQ_Lvl C ''NTTLvl'' levelQ [poolQ0] poolQ0,
                       ringQ_Lvl C ''AddLvl'' levelQ [CtValue 0, poolQ0] (CtValue 0)]
                else
                  seq [ringQ_Lvl C ''NTTLvl'' levelQ [poolQ0] poolQ0,
                       ringQ_Lvl C ''AddLvl'' levelQ [CtValue 0, poolQ0] (CtValue 0),
                       ringQ_Lvl C ''AddLvl'' levelQ [CtValue 0, PtValue] (CtValue 0)]]
         else
           seq [ringQ_Lvl C ''InvNTTLvl'' levelQ [CtValue 0] (CtValue 0),
                ringQ_Lvl C ''InvNTTLvl'' levelQ [CtValue 1] (CtValue 1),
                (\<lambda>s. ReadAndAddLvl C ''gaussianSampler'' (Level (mem s (CtValue 0))) (CtValue 0) s),
                (\<lambda>s. ReadAndAddLvl C ''gaussianSampler'' (Level (mem s (CtValue 0))) (CtValue 1) s),
                if \<not> plaintextNTT
                then ringQ_Lvl C ''AddLvl'' levelQ [CtValue 0, PtValue] (CtValue 0)
                else seq [ringQ_Lvl C ''InvNTTLvl'' levelQ [PtValue] poolQ0,
                          ringQ_Lvl C ''AddLvl'' levelQ [CtValue 0, poolQ0] (CtValue 0)]],
         (\<lambda>s. setIsNTT (CtValue 1) (IsNTT (mem s (CtValue 0))) s),
         truncate (CtValue 0) (levelQ + 1),
         truncate (CtValue 1) (levelQ + 1)] s0)"

definition skEncryptor_encrypt :: "ringCap \<Rightarrow> step" where
  "skEncryptor_encrypt C s0 =
     (let levelQ = min (Level (mem s0 PtValue)) (Level (mem s0 (CtValue 0)));
          poolQ0 = PoolQ 0;
          ciphertextNTT = IsNTT (mem s0 (CtValue 0));
          plaintextNTT = IsNTT (mem s0 PtValue)
      in seq
        [ringQ_Lvl C ''MulCoeffsMontgomeryLvl'' levelQ [CtValue 1, SkQ] (CtValue 0),
         ringQ_Lvl C ''NegLvl'' levelQ [CtValue 0] (CtValue 0),
         if ciphertextNTT then
           seq [ReadLvl C ''gaussianSampler'' levelQ poolQ0,
                if plaintextNTT then
                  seq [ringQ_Lvl C ''NTTLvl'' levelQ [poolQ0] poolQ0,
                       ringQ_Lvl C ''AddLvl'' levelQ [CtValue 0, poolQ0] (CtValue 0),
                       ringQ_Lvl C ''AddLvl'' levelQ [CtValue 0, PtValue] (CtValue 0)]
                else
                  seq [ringQ_Lvl C ''AddLvl'' levelQ [poolQ0, PtValue] poolQ0,
                       ringQ_Lvl C ''NTTLvl'' levelQ [poolQ0] poolQ0,
                       ringQ_Lvl C ''AddLvl'' levelQ [CtValue 0, poolQ0] (CtValue 0)],
                setIsNTT (CtValue 0) True,
                setIsNTT (CtValue 1) True]
         else
           seq [if plaintextNTT then
                  seq [ringQ_Lvl C ''AddLvl'' levelQ [CtValue 0, PtValue] (CtValue 0),
                       ringQ_Lvl C ''InvNTTLvl'' levelQ [CtValue 0] (CtValue 0)]
                else
                  seq [ringQ_Lvl C ''InvNTTLvl'' levelQ [CtValue 0] (CtValue 0),
                       ringQ_Lvl C ''AddLvl'' levelQ [CtValue 0, PtValue] (CtValue 0)],
                (\<lambda>s. ReadAndAddLvl C ''gaussianSampler'' (Level (mem s (CtValue 0))) (CtValue 0) s),
                ringQ_Lvl C ''InvNTTLvl'' levelQ [CtValue 1] (CtValue 1),
                setIsNTT (CtValue 0) False,
                setIsNTT (CtValue 1) False],
         truncate (CtValue 0) (levelQ + 1),
         truncate (CtValue 1) (levelQ + 1)] s0)"

subsection \<open>The entry points\<close>

text \<open>An encryptor is bound to a public key or to a secret key.\<close>

datatype Encryptor = pkEncryptor | skEncryptor

definition Encrypt :: "ringCap \<Rightarrow> Encryptor \<Rightarrow> step" where
  "Encrypt C enc s0 =
     (case enc of
        pkEncryptor \<Rightarrow>
          seq [ReadLvl C ''uniformSamplerQ''
                 (min (Level (mem s0 PtValue)) (Level (mem s0 (CtValue 0)))) (CtValue 1),
               if hasP C then pkEncryptor_encrypt C else pkEncryptor_encryptNoP C] s0
      | skEncryptor \<Rightarrow>
          seq [ReadLvl C ''uniformSamplerQ''
                 (min (Level (mem s0 PtValue)) (Level (mem s0 (CtValue 0)))) (CtValue 1),
               skEncryptor_encrypt C] s0)"

definition EncryptFromCRP :: "ringCap \<Rightarrow> Encryptor \<Rightarrow> step" where
  "EncryptFromCRP C enc s0 =
     (case enc of
        pkEncryptor \<Rightarrow> Panic ''Cannot encrypt with CRP using a public-key'' s0
      | skEncryptor \<Rightarrow> seq [CopyValues Crp (CtValue 1), skEncryptor_encrypt C] s0)"

subsection \<open>RGSW encryption under a secret key\<close>

definition encryptZeroSymetricQP ::
  "ringCap \<Rightarrow> int \<Rightarrow> int \<Rightarrow> reg \<times> reg \<Rightarrow> bool \<Rightarrow> bool \<Rightarrow> reg \<times> reg \<Rightarrow> reg \<times> reg \<Rightarrow> step" where
  "encryptZeroSymetricQP C levelQ levelP sk sample_flag ntt a b s0 =
     (let hasModulusP = (Coeffs (mem s0 (snd a)) \<noteq> [] \<and> Coeffs (mem s0 (snd b)) \<noteq> [])
      in seq
        [if ntt then
           seq [ReadLvl C ''gaussianSampler'' levelQ (fst a),
                if hasModulusP then ExtendBasisSmallNormAndCenter C (fst a) levelP (snd a) else Ok,
                ringQP C ''NTTLvl'' levelQ levelP [a] a]
         else Ok,
         if sample_flag then
           seq [ReadLvl C ''uniformSamplerQ'' levelQ (fst b),
                if hasModulusP then ReadLvl C ''uniformSamplerP'' levelP (snd b) else Ok]
         else Ok,
         ringQP C ''MulCoeffsMontgomeryAndSubLvl'' levelQ levelP [b, sk, a] a,
         if \<not> ntt then
           (let e = (PoolQ 0, PoolP 0) in
            seq [ringQP C ''InvNTTLvl'' levelQ levelP [a] a,
                 ringQP C ''InvNTTLvl'' levelQ levelP [b] b,
                 ReadLvl C ''gaussianSampler'' levelQ (fst e),
                 if hasModulusP then ExtendBasisSmallNormAndCenter C (fst e) levelP (snd e) else Ok,
                 ringQP C ''AddLvl'' levelQ levelP [a, e] a])
         else Ok] s0)"

text \<open>
  The loop over the coefficients \<open>w\<close> in the innermost loop of EncryptRGSW, on one
  row: \<open>ptmp[w] = CRed(ptmp[w] + p0tmp[w], qi)\<close> for \<open>w < N\<close>.
\<close>

definition addedRow :: "ringCap \<Rightarrow> uint64 \<Rightarrow> uint64 list \<Rightarrow> uint64 list \<Rightarrow> uint64 list" where
  "addedRow C qi p0tmp ptmp =
     map (\<lambda>w. if w < ringQ_N C then CRed C (ptmp ! w + p0tmp ! w) qi else ptmp ! w)
       [0..<length ptmp]"

text \<open>
  One round of the innermost loop, for the row \<open>index\<close>: the residues of that row of
  the scaled plaintext are added to the same row of the cells \<open>[i][j][0][0]\<close> and
  \<open>[i][j][1][1]\<close>.
\<close>

definition addPlaintextRow :: "ringCap \<Rightarrow> nat \<Rightarrow> nat \<Rightarrow> nat \<Rightarrow> step" where
  "addPlaintextRow C i j index s =
     (let p0 = Coeffs (mem s (PoolQ 1));
          p1 = Coeffs (mem s (RgswQ i j 0 0));
          p2 = Coeffs (mem s (RgswQ i j 1 1));
          n = ringQ_N C
      in if index < length (ringQ_Modulus C) \<and> index < length p0 \<and> index < length p1
            \<and> index < length p2 \<and> n \<le> length (p0 ! index) \<and> n \<le> length (p1 ! index)
            \<and> n \<le> length (p2 ! index)
         then
           let qi = ringQ_Modulus C ! index;
               p0tmp = p0 ! index;
               p1tmp = p1 ! index;
               p2tmp = p2 ! index
           in Ok (s\<lparr>mem := (mem s)
                   (RgswQ i j 0 0 := (mem s (RgswQ i j 0 0))\<lparr>Coeffs := p1[index := addedRow C qi p0tmp p1tmp]\<rparr>,
                    RgswQ i j 1 1 := (mem s (RgswQ i j 1 1))\<lparr>Coeffs := p2[index := addedRow C qi p0tmp p2tmp]\<rparr>)\<rparr>)
         else Panic ''runtime error: index out of range'' s)"

text \<open>The innermost loop, over the values \<open>ks\<close> of \<open>k\<close> still to come, with its break.\<close>

fun addPlaintextLoop :: "ringCap \<Rightarrow> int \<Rightarrow> int \<Rightarrow> nat \<Rightarrow> nat \<Rightarrow> nat list \<Rightarrow> step" where
  "addPlaintextLoop C levelQ levelP i j [] s = Ok s"
| "addPlaintextLoop C levelQ levelP i j (k # ks) s =
     (let index = int i * (levelP + 1) + int k
      in if levelQ + 1 \<le> index then Ok s
         else case addPlaintextRow C i j (nat index) s of
                Ok s' \<Rightarrow> addPlaintextLoop C levelQ levelP i j ks s'
              | Panic m s' \<Rightarrow> Panic m s')"

text \<open>Indexing \<open>ciphertext.Value[i][j]\<close> outside the grid is a panic.\<close>

definition cell :: "nat \<Rightarrow> nat \<Rightarrow> step" where
  "cell i j s =
     (if i < rgswRows s \<and> j < rgswCols s then Ok s
      else Panic ''runtime error: index out of range'' s)"

text \<open>
  The product of the first \<open>levelP + 1\<close> moduli of P, as the source computes it.
  Modelled from the spec: \<open>ModulusBigint\<close> is the product of the whole chain.
\<close>

definition pBigInt :: "ringCap \<Rightarrow> int \<Rightarrow> int option" where
  "pBigInt C levelP =
     (if levelP = int (length (ringP_Modulus C)) - 1 then Some (prod_list (map uint (ringP_Modulus C)))
      else if ringP_Modulus C = [] \<or> int (length (ringP_Modulus C)) < levelP + 1 then None
      else Some (prod_list (map uint (take (nat (levelP + 1)) (ringP_Modulus C)))))"

text \<open>
  \<open>ringQ.MulScalarBigintLvl\<close> and \<open>ringQ.MulScalar\<close> take a scalar besides their
  operands; \<open>MulScalar\<close> has no level argument and works on all rows of the ring.
\<close>

definition MulScalarBigintLvl :: "ringCap \<Rightarrow> int \<Rightarrow> reg \<Rightarrow> int \<Rightarrow> reg \<Rightarrow> step" where
  "MulScalarBigintLvl C lvl p1 scalar p2 s =
     update (ringQ_op C) ''MulScalarBigintLvl'' [lvl, scalar] [(p1, lvl)] (p2, lvl)
       (logCall ''ringQ.MulScalarBigintLvl'' [lvl] s)"

definition MulScalar :: "ringCap \<Rightarrow> reg \<Rightarrow> int \<Rightarrow> reg \<Rightarrow> step" where
  "MulScalar C p1 scalar p2 s =
     (let lvl = int (length (ringQ_Modulus C)) - 1
      in update (ringQ_op C) ''MulScalar'' [scalar] [(p1, lvl)] (p2, lvl)
           (logCall ''ringQ.MulScalar'' [] s))"

text \<open>
  The package function \<open>ring.CopyLvl\<close> is taken as one of the operations at a
  level, under the name \<open>CopyLvl\<close>.

  EncryptRGSW under a secret key, in three parts: the block that scales the plaintext
  into the buffer \<open>ptTimesP\<close>, the body of the two loops at the grid position
  \<open>(i, j)\<close>, and the function itself.  \<open>plaintext_nil\<close> tells whether the
  plaintext argument is nil; \<open>levelP0\<close> is \<open>ciphertext.LevelP()\<close> and \<open>levelP\<close>
  the variable of that name when the loops start.
\<close>

definition rgswScalePlaintext :: "ringCap \<Rightarrow> bool \<Rightarrow> bool \<Rightarrow> int \<Rightarrow> int \<Rightarrow> step" where
  "rgswScalePlaintext C plaintext_nil plaintextNTT levelQ levelP0 =
     (let ptTimesP = PoolQ 1
      in if \<not> plaintext_nil then
           (if levelP0 \<noteq> - 1 then
              (case pBigInt C levelP0 of
                 None \<Rightarrow> Panic ''runtime error: index out of range''
               | Some pBig \<Rightarrow>
                   seq [MulScalarBigintLvl C levelQ PtValue pBig ptTimesP,
                        if \<not> plaintextNTT then ringQ_Lvl C ''NTTLvl'' levelQ [ptTimesP] ptTimesP else Ok])
            else
              (if \<not> plaintextNTT
               then ringQ_Lvl C ''NTTLvl'' levelQ [PtValue] ptTimesP
               else ringQ_Lvl C ''CopyLvl'' levelQ [PtValue] ptTimesP))
         else Ok)"

definition rgswCell :: "ringCap \<Rightarrow> bool \<Rightarrow> bool \<Rightarrow> int \<Rightarrow> int \<Rightarrow> nat \<Rightarrow> nat \<Rightarrow> step" where
  "rgswCell C plaintext_nil isNTT levelQ levelP i j =
     seq [cell i j,
          encryptZeroSymetricQP C levelQ levelP (SkQ, SkP) True isNTT
            (RgswQ i j 0 0, RgswP i j 0 0) (RgswQ i j 0 1, RgswP i j 0 1),
          encryptZeroSymetricQP C levelQ levelP (SkQ, SkP) True isNTT
            (RgswQ i j 1 0, RgswP i j 1 0) (RgswQ i j 1 1, RgswP i j 1 1),
          if \<not> plaintext_nil
          then addPlaintextLoop C levelQ levelP i j [0..<nat (levelP + 1)]
          else Ok,
          ringQP C ''MFormLvl'' levelQ levelP [(RgswQ i j 0 0, RgswP i j 0 0)] (RgswQ i j 0 0, RgswP i j 0 0),
          ringQP C ''MFormLvl'' levelQ levelP [(RgswQ i j 0 1, RgswP i j 0 1)] (RgswQ i j 0 1, RgswP i j 0 1),
          ringQP C ''MFormLvl'' levelQ levelP [(RgswQ i j 1 0, RgswP i j 1 0)] (RgswQ i j 1 0, RgswP i j 1 0),
          ringQP C ''MFormLvl'' levelQ levelP [(RgswQ i j 1 1, RgswP i j 1 1)] (RgswQ i j 1 1, RgswP i j 1 1)]"

definition skEncryptor_EncryptRGSW :: "ringCap \<Rightarrow> bool \<Rightarrow> step" where
  "skEncryptor_EncryptRGSW C plaintext_nil s0 =
     (case cell 0 0 s0 of Panic msg s \<Rightarrow> Panic msg s | Ok _ \<Rightarrow>
      let isNTT = IsNTT (mem s0 (RgswQ 0 0 0 0));
          levelQ = Level (mem s0 (RgswQ 0 0 0 0));
          levelP0 = Level (mem s0 (RgswP 0 0 0 0));
          ptTimesP = PoolQ 1;
          levelP = (if \<not> plaintext_nil \<and> levelP0 = - 1 then 0 else levelP0);
          decompRNS = DecompRNS C levelQ levelP;
          decompBIT = DecompBIT C levelQ levelP
      in seq
        [rgswScalePlaintext C plaintext_nil (IsNTT (mem s0 PtValue)) levelQ levelP0,
         seq (map (\<lambda>j.
                seq [seq (map (\<lambda>i. rgswCell C plaintext_nil isNTT levelQ levelP i j)
                            [0..<nat decompRNS]),
                     MulScalar C ptTimesP (uint (push_bit (LogBase2 C) (1 :: uint64))) ptTimesP])
              [0..<nat decompBIT])] s0)"

definition EncryptRGSW :: "ringCap \<Rightarrow> Encryptor \<Rightarrow> bool \<Rightarrow> step" where
  "EncryptRGSW C enc plaintext_nil s0 =
     (case enc of
        pkEncryptor \<Rightarrow> Panic ''method not implemented'' s0
      | skEncryptor \<Rightarrow> skEncryptor_EncryptRGSW C plaintext_nil s0)"

subsection \<open>What a state shows of its polynomials\<close>

definition rows :: "encState \<Rightarrow> reg \<Rightarrow> nat" where
  "rows s r = length (Coeffs (mem s r))"

definition tags :: "encState \<Rightarrow> reg \<Rightarrow> bool" where
  "tags s r = IsNTT (mem s r)"

definition keepsRows :: "step \<Rightarrow> bool" where
  "keepsRows f = (\<forall>s s'. f s = Ok s' \<longrightarrow> rows s' = rows s)"

definition keepsTags :: "step \<Rightarrow> bool" where
  "keepsTags f = (\<forall>s s'. f s = Ok s' \<longrightarrow> tags s' = tags s)"

definition tagsAgree :: "step \<Rightarrow> bool" where
  "tagsAgree f = (\<forall>s s'. f s = Ok s' \<longrightarrow> tags s' (CtValue 1) = tags s' (CtValue 0))"

subsection \<open>A small instance\<close>

text \<open>
  A capability over one coefficient and the chain \<open>[17, 19]\<close>, without auxiliary
  modulus, whose operations return the row \<open>[i]\<close> and whose samplers return the row
  \<open>[d]\<close>, with a 2 by 1 decomposition.  A state, all in the coefficient domain, in
  which the plaintext has one row (level 0), the cells of the RGSW ciphertext have one
  row over Q, the polynomials over P have none, and every other polynomial has two rows
  (level 1); \<open>shape0\<close> gives these numbers of rows.
\<close>

definition cap0 :: ringCap where
  "cap0 = \<lparr>ringQ_op = (\<lambda>name args i ins. [of_nat i]), ringP_op = (\<lambda>name args i ins. [of_nat i]),
      sample = (\<lambda>name d i. [of_nat d]), CRed = (\<lambda>a q. if q \<le> a then a - q else a),
      ringQ_N = 1, ringQ_Modulus = [17, 19], ringP_Modulus = [],
      DecompRNS = (\<lambda>levelQ levelP. 2), DecompBIT = (\<lambda>levelQ levelP. 1), LogBase2 = 0,
      hasP = False\<rparr>"

definition shape0 :: "reg \<Rightarrow> nat" where
  "shape0 r = (case r of PtValue \<Rightarrow> 1 | RgswQ i j a b \<Rightarrow> 1 | RgswP i j a b \<Rightarrow> 0
               | PoolP i \<Rightarrow> 0 | PkP i \<Rightarrow> 0 | SkP \<Rightarrow> 0 | _ \<Rightarrow> 2)"

definition mem0 :: "reg \<Rightarrow> Poly" where
  "mem0 r = (case r of
               PtValue \<Rightarrow> \<lparr>Coeffs = [[5]], IsNTT = False\<rparr>
             | RgswQ i j a b \<Rightarrow> \<lparr>Coeffs = [[3]], IsNTT = False\<rparr>
             | RgswP i j a b \<Rightarrow> \<lparr>Coeffs = [], IsNTT = False\<rparr>
             | PoolP i \<Rightarrow> \<lparr>Coeffs = [], IsNTT = False\<rparr>
             | PkP i \<Rightarrow> \<lparr>Coeffs = [], IsNTT = False\<rparr>
             | SkP \<Rightarrow> \<lparr>Coeffs = [], IsNTT = False\<rparr>
             | PoolQ i \<Rightarrow> \<lparr>Coeffs = [[5], [7]], IsNTT = False\<rparr>
             | _ \<Rightarrow> \<lparr>Coeffs = [[0], [0]], IsNTT = False\<rparr>)"

definition state0 :: encState where
  "state0 = \<lparr>mem = mem0, draws = 0, calls = [], rgswRows = 2, rgswCols = 1\<rparr>"

subsection \<open>Observing a result\<close>

definition callsOf :: "res \<Rightarrow> call list" where
  "callsOf x = (case x of Ok s \<Rightarrow> calls s | Panic m s \<Rightarrow> calls s)"

definition returned :: "res \<Rightarrow> bool" where
  "returned x = (case x of Ok s \<Rightarrow> True | Panic m s \<Rightarrow> False)"

subsection \<open>Well-formed capabilities and states\<close>

text \<open>The operations and the samplers of a capability yield rows of N residues.\<close>

definition capOk :: "ringCap \<Rightarrow> bool" where
  "capOk C =
     ((\<forall>name args i ins. length (ringQ_op C name args i ins) = ringQ_N C) \<and>
      (\<forall>name args i ins. length (ringP_op C name args i ins) = ringQ_N C) \<and>
      (\<forall>name d i. length (sample C name d i) = ringQ_N C))"

text \<open>
  A state has the shape \<open>R\<close>, \<open>m\<close>, \<open>n\<close> when each polynomial \<open>r\<close> has \<open>R r\<close>
  rows of N residues and the RGSW grid is \<open>m\<close> by \<open>n\<close>.
\<close>

definition shaped :: "ringCap \<Rightarrow> (reg \<Rightarrow> nat) \<Rightarrow> nat \<Rightarrow> nat \<Rightarrow> encState \<Rightarrow> bool" where
  "shaped C R m n s =
     (rows s = R \<and> rgswRows s = m \<and> rgswCols s = n \<and>
      (\<forall>r. \<forall>row \<in> set (Coeffs (mem s r)). length row = ringQ_N C))"

text \<open>
  The arguments of EncryptRGSW are well formed for the shape \<open>R\<close>, \<open>m\<close>, \<open>n\<close>
  when the grid is not empty and has the dimensions the decomposition asks for, its
  cells all have the rows of its first cell, of which the Q part has at least one, the
  cells carry a P part exactly when the parameters have an auxiliary chain, the chains
  of the rings are long enough for the cells, and the key, the buffers and the
  plaintext (when there is one) have at least the rows of the cells; the second buffer
  over Q has a row for every modulus of the ring.
\<close>

definition rgswOk :: "ringCap \<Rightarrow> (reg \<Rightarrow> nat) \<Rightarrow> nat \<Rightarrow> nat \<Rightarrow> bool \<Rightarrow> bool" where
  "rgswOk C R m n plaintext_nil =
     (let q = R (RgswQ 0 0 0 0); p = R (RgswP 0 0 0 0);
          levelQ = int q - 1;
          levelP = (if \<not> plaintext_nil \<and> p = 0 then 0 else int p - 1)
      in 0 < m \<and> 0 < n \<and> 0 < q \<and>
         nat (DecompRNS C levelQ levelP) \<le> m \<and> nat (DecompBIT C levelQ levelP) \<le> n \<and>
         (\<forall>i < m. \<forall>j < n. \<forall>a < 2. \<forall>b < 2. R (RgswQ i j a b) = q \<and> R (RgswP i j a b) = p) \<and>
         hasP C = (0 < p) \<and>
         p \<le> length (ringP_Modulus C) \<and> q \<le> length (ringQ_Modulus C) \<and>
         length (ringQ_Modulus C) \<le> R (PoolQ 1) \<and> q \<le> R (PoolQ 0) \<and> q \<le> R SkQ \<and>
         p \<le> R (PoolP 0) \<and> p \<le> R SkP \<and>
         (\<not> plaintext_nil \<longrightarrow> q \<le> R PtValue))"

text \<open>From a state that satisfies \<open>P\<close> the step returns, in a state that satisfies \<open>Q\<close>.\<close>

definition returns :: "(encState \<Rightarrow> bool) \<Rightarrow> step \<Rightarrow> (encState \<Rightarrow> bool) \<Rightarrow> bool" where
  "returns P f Q = (\<forall>s. P s \<longrightarrow> (\<exists>s'. f s = Ok s' \<and> Q s'))"

section \<open>Properties of the parameter encoding\<close>

subsection \<open>Reading back what was written\<close>

lemma be_bytes_join:
  fixes v :: uint64
  shows "ucast (ucast v :: byte) OR push_bit 8 (ucast (ucast (drop_bit 8 v) :: byte))
     OR push_bit 16 (ucast (ucast (drop_bit 16 v) :: byte))
     OR push_bit 24 (ucast (ucast (drop_bit 24 v) :: byte))
     OR push_bit 32 (ucast (ucast (drop_bit 32 v) :: byte))
     OR push_bit 40 (ucast (ucast (drop_bit 40 v) :: byte))
     OR push_bit 48 (ucast (ucast (drop_bit 48 v) :: byte))
     OR push_bit 56 (ucast (ucast (drop_bit 56 v) :: byte)) = v" (is "?l = _")
proof (rule bit_word_eqI)
  fix n assume "n < LENGTH(64)"
  then have n: "n < 64" by simp
  consider "n < 8" | "8 \<le> n" "n < 16" | "16 \<le> n" "n < 24" | "24 \<le> n" "n < 32"
    | "32 \<le> n" "n < 40" | "40 \<le> n" "n < 48" | "48 \<le> n" "n < 56" | "56 \<le> n"
    by linarith
  then show "bit ?l n = bit v n"
    using n by cases (auto simp add: bit_simps)
qed

lemma len_int_pow2: "len_int (2 ^ k) = Suc k"
proof (induction k)
  case 0
  show ?case by (simp add: len_int.simps [of 1] len_int.simps [of 0])
next
  case (Suc k)
  then show ?case by (subst len_int.simps) simp
qed

lemma WriteUint8_append: "WriteUint8 v buf = buf @ [v]"
  by (simp add: WriteUint8_def)

lemma WriteUint64_append: "WriteUint64 v buf = buf @ WriteUint64 v []"
  by (simp add: WriteUint64_def)

lemma WriteUint64Slice_append: "WriteUint64Slice vs buf = buf @ WriteUint64Slice vs []"
proof (induction vs arbitrary: buf)
  case Nil
  show ?case by simp
next
  case (Cons v vs)
  have "WriteUint64Slice (v # vs) buf = WriteUint64 v buf @ WriteUint64Slice vs []"
    using Cons.IH [of "WriteUint64 v buf"] by simp
  also have "\<dots> = buf @ (WriteUint64 v [] @ WriteUint64Slice vs [])"
    using WriteUint64_append [of v buf] by simp
  also have "WriteUint64 v [] @ WriteUint64Slice vs [] = WriteUint64Slice (v # vs) []"
    using Cons.IH [of "WriteUint64 v []"] by simp
  finally show ?case .
qed

lemma ReadUint64_WriteUint64: "ReadUint64 (WriteUint64 v [] @ rest) = Some (v, rest)"
  by (simp add: ReadUint64_def WriteUint64_def be_bytes_join)

lemma ReadUint64Slice_WriteUint64Slice:
  "length xs = length vs \<Longrightarrow>
   ReadUint64Slice xs (WriteUint64Slice vs [] @ rest) = (vs, rest, True)"
proof (induction vs arbitrary: xs rest)
  case Nil
  then show ?case by simp
next
  case (Cons v vs)
  then obtain x xs' where xs: "xs = x # xs'" and len: "length xs' = length vs"
    by (cases xs) auto
  have w: "WriteUint64Slice (v # vs) [] = WriteUint64 v [] @ WriteUint64Slice vs []"
    using WriteUint64Slice_append [of vs "WriteUint64 v []"] by simp
  show ?case
    unfolding xs w using Cons.IH [OF len, of rest]
    by (simp add: ReadUint64_WriteUint64)
qed

lemma len64: "LENGTH(64) = 64"
  by simp

lemma unat_two_power: "k < 64 \<Longrightarrow> unat (2 ^ k :: uint64) = 2 ^ k"
proof -
  assume k: "k < 64"
  have "(2::nat) ^ k < 2 ^ 64" using k by (intro power_strict_increasing) simp_all
  then have "unat (word_of_nat (2 ^ k) :: uint64) = 2 ^ k"
    by (simp only: unat_of_nat len64 mod_less)
  then show ?thesis by simp
qed

lemma unat_byte_of_nat: "n < 256 \<Longrightarrow> unat (of_nat n :: byte) = n"
  by (simp add: unat_of_nat)

lemma unat_ucast_byte: "unat (ucast (b :: byte) :: uint64) = unat b"
proof -
  have "unat b < 2 ^ 8" using unsigned_less [of b] by simp
  also have "(2::nat) ^ 8 < 2 ^ 64" by (intro power_strict_increasing) simp_all
  finally have "unat b < 2 ^ LENGTH(64)" by (simp only: len64)
  then show ?thesis by (simp only: unsigned_ucast_eq take_bit_nat_eq_self)
qed

lemma ReadUint64Slice_WriteUint64Slice_end:
  "length xs = length vs \<Longrightarrow> ReadUint64Slice xs (WriteUint64Slice vs []) = (vs, [], True)"
  using ReadUint64Slice_WriteUint64Slice [of xs vs "[]"] by simp

lemma bits_Len64_pow2:
  assumes "k < 64"
  shows "bits_Len64 (push_bit k 1) - 1 = int k"
proof -
  have "uint (2 ^ k :: uint64) = int (unat (2 ^ k :: uint64))" by simp
  also have "\<dots> = 2 ^ k" using assms by (simp only: unat_two_power) simp
  finally show ?thesis by (simp add: bits_Len64_def len_int_pow2)
qed

lemma MarshalBinary_layout:
  assumes "N p \<noteq> 0"
  shows "MarshalBinary impl p =
     [word_of_int (bits_Len64 (N p) - 1), of_nat (length (Qi p)), of_nat (length (Pi p))]
     @ WriteUint64 (T p) [] @ WriteUint64 (uint64_of_f64 impl (f64_mul (Sigma p) (Finite (2 ^ 32)))) []
     @ WriteUint64Slice (Qi p) [] @ WriteUint64Slice (Pi p) []"
proof -
  have "MarshalBinary impl p =
     WriteUint64Slice (Pi p) (WriteUint64Slice (Qi p)
       (WriteUint64 (uint64_of_f64 impl (f64_mul (Sigma p) (Finite (2 ^ 32)))) (WriteUint64 (T p)
         [word_of_int (bits_Len64 (N p) - 1), of_nat (length (Qi p)), of_nat (length (Pi p))])))"
    using assms by (simp add: MarshalBinary_def WriteUint8_def Let_def)
  also have "\<dots> = [word_of_int (bits_Len64 (N p) - 1), of_nat (length (Qi p)), of_nat (length (Pi p))]
     @ WriteUint64 (T p) [] @ WriteUint64 (uint64_of_f64 impl (f64_mul (Sigma p) (Finite (2 ^ 32)))) []
     @ WriteUint64Slice (Qi p) [] @ WriteUint64Slice (Pi p) []"
    by (subst WriteUint64Slice_append, subst WriteUint64Slice_append,
        subst WriteUint64_append, subst WriteUint64_append) simp
  finally show ?thesis .
qed

lemma roundtrip_general:
  assumes N: "N p = push_bit k 1" and k: "k \<le> 16"
    and q: "length (Qi p) \<le> 34" and pp: "length (Pi p) \<le> 34"
  shows "UnMarshalBinary p0 (MarshalBinary impl p) =
    (p\<lparr>Sigma := f64_div (math_Round (f64_mul (f64_div (f64_of_uint64
         (uint64_of_f64 impl (f64_mul (Sigma p) (Finite (2 ^ 32))))) (Finite (2 ^ 32)))
           (Finite 100))) (Finite 100)\<rparr>, Done)"
proof -
  have k64: "k < 64" using k by simp
  have pk: "unat (push_bit k 1 :: uint64) = 2 ^ k"
    using unat_two_power [OF k64] by simp
  have N0: "N p \<noteq> 0"
    using pk unfolding N by (metis power_not_zero unsigned_0 zero_neq_numeral)
  have b0: "(word_of_int (bits_Len64 (N p) - 1) :: byte) = of_nat k"
    unfolding N bits_Len64_pow2 [OF k64] by simp
  have uk: "unat (of_nat k :: byte) = k"
    using k by (intro unat_byte_of_nat) simp
  have uq: "unat (ucast (of_nat (length (Qi p)) :: byte) :: uint64) = length (Qi p)"
    using q by (simp only: unat_ucast_byte) (intro unat_byte_of_nat, simp)
  have up: "unat (ucast (of_nat (length (Pi p)) :: byte) :: uint64) = length (Pi p)"
    using pp by (simp only: unat_ucast_byte) (intro unat_byte_of_nat, simp)
  have lq: "\<not> MaxModuliCount < (ucast (of_nat (length (Qi p)) :: byte) :: uint64)"
    using q unfolding word_less_nat_alt uq by (simp add: MaxModuliCount_def)
  have lp: "\<not> MaxModuliCount < (ucast (of_nat (length (Pi p)) :: byte) :: uint64)"
    using pp unfolding word_less_nat_alt up by (simp add: MaxModuliCount_def)
  have ln: "\<not> MaxN < (push_bit k 1 :: uint64)"
  proof -
    have "(2::nat) ^ k \<le> 2 ^ 16" using k by (intro power_increasing) auto
    moreover have "unat MaxN = 2 ^ 16" by (simp add: MaxN_def)
    ultimately show ?thesis unfolding word_less_nat_alt pk by simp
  qed
  have r1: "ReadUint8 (of_nat k # rest) = Some (of_nat k, rest)" for rest
    by (simp add: ReadUint8_def)
  show ?thesis
    unfolding MarshalBinary_layout [OF N0] b0
    using lq lp ln uq up uk N
    by (simp add: UnMarshalBinary_def ReadUint8_def ReadUint64_WriteUint64
        ReadUint64Slice_WriteUint64Slice ReadUint64Slice_WriteUint64Slice_end Let_def del: push_bit_of_1)
qed

lemma enc_sigma: "uint64_of_f64 impl (f64_mul sigma_3_19 (Finite (2 ^ 32))) = 13700945674"
proof -
  have "f64_mul sigma_3_19 (Finite (2 ^ 32)) = Finite (7183241405655941 / 524288)"
    by code_simp
  moreover have "\<lfloor>7183241405655941 / 524288 :: rat\<rfloor> = 13700945674"
    by code_simp
  ultimately show ?thesis by (simp add: uint64_of_f64_def)
qed

lemma sigma_roundtrip:
  "f64_div (math_Round (f64_mul (f64_div (f64_of_uint64 13700945674) (Finite (2 ^ 32)))
     (Finite 100))) (Finite 100) = sigma_3_19"
proof -
  have "f64_div (math_Round (f64_mul (f64_div (f64_of_rat 13700945674) (Finite (2 ^ 32)))
     (Finite 100))) (Finite 100) = sigma_3_19"
    by code_simp
  then show ?thesis by (simp add: f64_of_uint64_def)
qed

lemma length_Pi60: "length Pi60 = 100"
  by (simp add: Pi60_def)


text \<open>
  C7.  For every entry \<open>p\<close> of the default parameter table, decoding the bytes that
  MarshalBinary produces for \<open>p\<close> succeeds, whatever the target held before, and leaves
  the target equal to \<open>p\<close>: the same N, T, Qi, Pi and noise width.  The decoder rounds
  the noise width to two decimal places; for the table's 3.19 the rounded value is the
  float64 the table holds.  The conversion of the scaled noise width to uint64 is in
  range, so the result holds whatever an implementation does out of range.
\<close>

theorem DefaultParams_roundtrip:
  assumes "p \<in> set DefaultParams"
  shows "UnMarshalBinary p0 (MarshalBinary impl p) = (p, Done)"
proof -
  have "(4096 :: uint64) = push_bit 12 1" "(8192 :: uint64) = push_bit 13 1"
    "(16384 :: uint64) = push_bit 14 1" "(32768 :: uint64) = push_bit 15 1"
    by simp_all
  then have "N p = push_bit 12 1 \<or> N p = push_bit 13 1 \<or> N p = push_bit 14 1 \<or> N p = push_bit 15 1"
    using assms unfolding DefaultParams_def by auto
  then obtain k where k: "N p = push_bit k 1" "k \<le> 16"
    by (elim disjE) (rule that, assumption, simp)+
  have q: "length (Qi p) \<le> 34"
    using assms
    by (auto simp: DefaultParams_def logN12Q110_def logN13Q219_def logN14Q441_def logN15Q885_def)
  have pp: "length (Pi p) \<le> 34"
    using assms by (auto simp: DefaultParams_def length_Pi60)
  have s: "Sigma p = sigma_3_19"
    using assms by (auto simp: DefaultParams_def)
  have "UnMarshalBinary p0 (MarshalBinary impl p) = (p\<lparr>Sigma := sigma_3_19\<rparr>, Done)"
    using roundtrip_general [OF k q pp, of p0 impl] unfolding s enc_sigma sigma_roundtrip .
  moreover have "p\<lparr>Sigma := sigma_3_19\<rparr> = p"
    using s by simp
  ultimately show ?thesis by simp
qed

theorem DefaultParams_roundtrip_witness:
  "DefaultParams ! 0 \<in> set DefaultParams \<and>
   UnMarshalBinary \<lparr>N = 0, T = 0, Qi = [], Pi = [], Sigma = Finite 0\<rparr>
       (MarshalBinary (\<lambda>a. 0) (DefaultParams ! 0))
     = (DefaultParams ! 0, Done)"
proof -
  have h: "DefaultParams ! 0 \<in> set DefaultParams"
    by (simp add: DefaultParams_def)
  show ?thesis
    using h DefaultParams_roundtrip
      [OF h, of "\<lparr>N = 0, T = 0, Qi = [], Pi = [], Sigma = Finite 0\<rparr>" "\<lambda>a. 0"]
    by simp
qed

subsection \<open>What a failed decoding leaves behind\<close>

text \<open>
  C3, as stated, fails: on the header \<open>[17, 0, 0]\<close> the decoder reports that the degree
  is too large, and the target's N, which was 0, is \<open>2 ^ 17\<close> afterwards.
\<close>

theorem UnMarshalBinary_error_mutates_N:
  "snd (UnMarshalBinary \<lparr>N = 0, T = 0, Qi = [], Pi = [], Sigma = Finite 0\<rparr> [17, 0, 0])
     = Failed DegreeTooLarge \<and>
   fst (UnMarshalBinary \<lparr>N = 0, T = 0, Qi = [], Pi = [], Sigma = Finite 0\<rparr> [17, 0, 0])
     \<noteq> \<lparr>N = 0, T = 0, Qi = [], Pi = [], Sigma = Finite 0\<rparr>"
  by (simp add: UnMarshalBinary_def ReadUint8_def MaxN_def)

text \<open>
  C3, amended.  When UnMarshalBinary returns an error, then either the buffer is shorter
  than 3 bytes and the target is unchanged, or the error is one of the three size
  errors and the target differs from its old value at most in N, which holds 1 shifted
  left by the first byte: T, Qi, Pi and the noise width are untouched.
\<close>

theorem UnMarshalBinary_error_frame:
  assumes "UnMarshalBinary p data = (p', Failed e)"
  shows "(e = InvalidEncoding \<longrightarrow> length data < 3 \<and> p' = p) \<and>
         (e \<noteq> InvalidEncoding \<longrightarrow>
            3 \<le> length data \<and> p' = p\<lparr>N := push_bit (unat (hd data)) 1\<rparr>)"
  using assms
  by (auto simp add: UnMarshalBinary_def ReadUint8_def Let_def
      split: if_splits option.splits prod.splits list.splits)

theorem UnMarshalBinary_error_frame_witness:
  "UnMarshalBinary \<lparr>N = 0, T = 7, Qi = [1], Pi = [2], Sigma = Finite 3\<rparr> [17, 0, 0]
     = (\<lparr>N = 131072, T = 7, Qi = [1], Pi = [2], Sigma = Finite 3\<rparr>, Failed DegreeTooLarge) \<and>
   3 \<le> length [17 :: byte, 0, 0] \<and>
   \<lparr>N = 131072, T = 7, Qi = [1], Pi = [2], Sigma = Finite 3\<rparr>
     = \<lparr>N = 0, T = 7, Qi = [1], Pi = [2], Sigma = Finite 3\<rparr>\<lparr>N := push_bit (unat (hd [17 :: byte, 0, 0])) 1\<rparr>"
proof -
  have h: "UnMarshalBinary \<lparr>N = 0, T = 7, Qi = [1], Pi = [2], Sigma = Finite 3\<rparr> [17, 0, 0]
     = (\<lparr>N = 131072, T = 7, Qi = [1], Pi = [2], Sigma = Finite 3\<rparr>, Failed DegreeTooLarge)"
    by (simp add: UnMarshalBinary_def ReadUint8_def MaxN_def)
  show ?thesis
    using h UnMarshalBinary_error_frame [OF h] by blast
qed

subsection \<open>Equality of parameter sets\<close>

text \<open>
  C6, as stated, fails where the noise width is NaN.  Take a store whose addresses 0
  and 1 hold the same parameter set, with noise width NaN.  Equals of address 0 with
  itself is true although the noise width is not \<open>==\<close> to itself; Equals of address 0
  with address 1 is false although the two sets agree in every field.
\<close>

theorem Equals_NaN_not_iff_fields:
  "Equals (\<lambda>a. \<lparr>N = 4096, T = 65537, Qi = [17], Pi = [19], Sigma = NaN\<rparr>) 0 0 \<and>
   \<not> f64_eq (Sigma ((\<lambda>a. \<lparr>N = 4096, T = 65537, Qi = [17], Pi = [19], Sigma = NaN\<rparr>) (0 :: nat)))
           (Sigma ((\<lambda>a. \<lparr>N = 4096, T = 65537, Qi = [17], Pi = [19], Sigma = NaN\<rparr>) (0 :: nat))) \<and>
   \<not> Equals (\<lambda>a. \<lparr>N = 4096, T = 65537, Qi = [17], Pi = [19], Sigma = NaN\<rparr>) 0 1 \<and>
   (\<lambda>a. \<lparr>N = 4096, T = 65537, Qi = [17], Pi = [19], Sigma = NaN\<rparr>) (0 :: nat)
     = (\<lambda>a. \<lparr>N = 4096, T = 65537, Qi = [17], Pi = [19], Sigma = NaN\<rparr>) (1 :: nat)"
  by (simp add: Equals_def EqualSlice_def f64_eq_def)

text \<open>
  C6, amended.  Equals answers true exactly when the two pointers are the same, or the
  two parameter sets have the same N, the same Qi sequence, the same Pi sequence and
  noise widths that compare equal with \<open>==\<close>, which no NaN does.  T is not looked at:
  giving either set any other T leaves the answer as it was.
\<close>

theorem Equals_iff_pointer_or_fields:
  "Equals st p other =
     (p = other \<or>
      N (st p) = N (st other) \<and> Qi (st p) = Qi (st other) \<and> Pi (st p) = Pi (st other)
      \<and> f64_eq (Sigma (st p)) (Sigma (st other))) \<and>
   Equals (st(p := (st p)\<lparr>T := t\<rparr>, other := (st other)\<lparr>T := t'\<rparr>)) p other = Equals st p other"
  by (simp add: Equals_def EqualSlice_def)

section \<open>Properties of the multi-key decryptor\<close>

subsection \<open>What the ring operations touch\<close>

lemma Add_frame:
  assumes "Add r p1 p2 p3 st = Some st'"
  shows "length st' = length st" and "a \<noteq> p3 \<Longrightarrow> st' ! a = st ! a"
  using assms by (auto simp: Add_def split: if_splits)

lemma Copy_frame:
  assumes "Copy r p0 p1 st = Some st'"
  shows "length st' = length st" and "a \<noteq> p1 \<Longrightarrow> st' ! a = st ! a"
  using assms by (auto simp: Copy_def split: if_splits)

lemma MergeDec_loop_frame:
  assumes "MergeDec_loop r res ks st = Some st'"
  shows "length st' = length st \<and> (a \<noteq> res \<longrightarrow> st' ! a = st ! a)"
  using assms
proof (induction ks arbitrary: st)
  case Nil
  then show ?case by simp
next
  case (Cons k ks)
  from Cons.prems obtain st1 where s1: "Add r res k res st = Some st1"
    and s2: "MergeDec_loop r res ks st1 = Some st'"
    by (auto split: option.splits)
  from Cons.IH [OF s2] Add_frame [OF s1] show ?case by simp
qed

subsection \<open>Polynomials of exactly the ring's shape\<close>

lemma overlay_exact:
  assumes "exact r new" and "exact r old"
  shows "overlay r new old = new"
proof (rule nth_equalityI)
  show "length (overlay r new old) = length new"
    using assms by (simp add: overlay_def exact_def)
next
  fix i assume "i < length (overlay r new old)"
  then have i: "i < length (Modulus r)"
    using assms by (simp add: overlay_def exact_def)
  then have "length (old ! i) = RingN r"
    using assms by (simp add: exact_def)
  then show "overlay r new old ! i = new ! i"
    using i assms by (simp add: overlay_def exact_def)
qed

lemma exact_addCoeffs: "exact r (addCoeffs r a b)"
  by (auto simp: exact_def addCoeffs_def)

lemma exact_copyCoeffs: "exact r (copyCoeffs r a)"
  by (auto simp: exact_def copyCoeffs_def)

lemma exact_zero: "exact r (replicate (length (Modulus r)) (replicate (RingN r) 0))"
  by (auto simp: exact_def)

lemma exact_fits: "exact r (Coeffs p) \<Longrightarrow> fits r p"
  by (auto simp: exact_def fits_def list_all_iff dest: in_set_takeD)

lemma exact_foldl_addCoeffs: "exact r a \<Longrightarrow> exact r (foldl (addCoeffs r) a bs)"
  by (induction bs arbitrary: a) (simp_all add: exact_addCoeffs)

subsection \<open>The loop of MergeDec\<close>

lemma MergeDec_loop_value:
  assumes "res < length st" and "exact r (Coeffs (st ! res))"
    and "\<forall>k \<in> set ks. k < length st \<and> k \<noteq> res \<and> fits r (st ! k)"
  shows "\<exists>st'. MergeDec_loop r res ks st = Some st' \<and>
           Coeffs (st' ! res) = foldl (addCoeffs r) (Coeffs (st ! res)) (map (\<lambda>k. Coeffs (st ! k)) ks)"
  using assms
proof (induction ks arbitrary: st)
  case Nil
  then show ?case by simp
next
  case (Cons k ks)
  let ?c = "addCoeffs r (Coeffs (st ! res)) (Coeffs (st ! k))"
  let ?st1 = "st[res := (st ! res)\<lparr>Coeffs := ?c\<rparr>]"
  have k: "k < length st" "k \<noteq> res" "fits r (st ! k)"
    using Cons.prems(3) by simp_all
  have ov: "overlay r ?c (Coeffs (st ! res)) = ?c"
    using overlay_exact [OF exact_addCoeffs Cons.prems(2)] .
  have step: "Add r res k res st = Some ?st1"
    using Cons.prems(1,2) k by (simp add: Add_def exact_fits ov)
  have r1: "res < length ?st1" using Cons.prems(1) by simp
  have e1: "exact r (Coeffs (?st1 ! res))"
    using Cons.prems(1) by (simp add: exact_addCoeffs)
  have others: "\<forall>k' \<in> set ks. k' < length ?st1 \<and> k' \<noteq> res \<and> fits r (?st1 ! k')"
    using Cons.prems(3) by (auto simp: nth_list_update)
  have same: "map (\<lambda>k'. Coeffs (?st1 ! k')) ks = map (\<lambda>k'. Coeffs (st ! k')) ks"
    using Cons.prems(3) by (auto simp: nth_list_update)
  from Cons.IH [OF r1 e1 others] obtain st' where
    l: "MergeDec_loop r res ks ?st1 = Some st'" and
    v: "Coeffs (st' ! res) = foldl (addCoeffs r) (Coeffs (?st1 ! res)) (map (\<lambda>k'. Coeffs (?st1 ! k')) ks)"
    by blast
  have "MergeDec_loop r res (k # ks) st = Some st'"
    using step l by simp
  moreover have "Coeffs (st' ! res) =
      foldl (addCoeffs r) (Coeffs (st ! res)) (map (\<lambda>k'. Coeffs (st ! k')) (k # ks))"
    using v Cons.prems(1) unfolding same by simp
  ultimately show ?case by blast
qed

subsection \<open>Sums of residues\<close>

lemma unat_addmod:
  assumes "0 < unat q"
  shows "unat (addmod q x y) = (unat x + unat y) mod unat q"
proof -
  have "(unat x + unat y) mod unat q < unat q" using assms by simp
  also have "unat q < 2 ^ LENGTH(64)" by (rule unsigned_less)
  finally show ?thesis
    unfolding addmod_def unat_of_nat by (simp only: mod_less)
qed

lemma unat_foldl_addmod:
  assumes "0 < unat q"
  shows "unat (foldl (addmod q) (addmod q x y) ys) = (unat x + unat y + sum_list (map unat ys)) mod unat q"
proof (induction ys arbitrary: x y)
  case Nil
  show ?case using unat_addmod [OF assms] by simp
next
  case (Cons z zs)
  have "unat (foldl (addmod q) (addmod q (addmod q x y) z) zs)
      = (unat (addmod q x y) + unat z + sum_list (map unat zs)) mod unat q"
    using Cons.IH [of "addmod q x y" z] .
  also have "\<dots> = ((unat x + unat y) mod unat q + (unat z + sum_list (map unat zs))) mod unat q"
    by (simp add: unat_addmod [OF assms] add.assoc)
  also have "\<dots> = (unat x + unat y + (unat z + sum_list (map unat zs))) mod unat q"
    by (rule mod_add_left_eq)
  finally show ?case by (simp add: add.assoc)
qed

lemma nth_addCoeffs:
  "i < length (Modulus r) \<Longrightarrow> j < RingN r \<Longrightarrow>
   addCoeffs r a b ! i ! j = addmod (Modulus r ! i) (a ! i ! j) (b ! i ! j)"
  by (simp add: addCoeffs_def)

lemma nth_foldl_addCoeffs:
  assumes "i < length (Modulus r)" and "j < RingN r"
  shows "foldl (addCoeffs r) a bs ! i ! j
       = foldl (addmod (Modulus r ! i)) (a ! i ! j) (map (\<lambda>b. b ! i ! j) bs)"
  by (induction bs arbitrary: a) (simp_all add: nth_addCoeffs [OF assms])

lemma nth_copyCoeffs:
  "i < length (Modulus r) \<Longrightarrow> j < RingN r \<Longrightarrow> copyCoeffs r a ! i ! j = a ! i ! j"
  by (simp add: copyCoeffs_def)

subsection \<open>MergeDec\<close>

lemma MergeDec_result:
  assumes c0: "c0 < length st" "fits (ringQ dec) (st ! c0)"
    and ks: "\<forall>k \<in> set ks. k < length st \<and> fits (ringQ dec) (st ! k)"
  shows "\<exists>st'. MergeDec dec c0 ks st = Some (\<lparr>elValue = [length st]\<rparr>, st') \<and>
     Coeffs (st' ! length st) =
       foldl (addCoeffs (ringQ dec)) (copyCoeffs (ringQ dec) (Coeffs (st ! c0)))
         (map (\<lambda>k. Coeffs (st ! k)) ks)"
proof -
  let ?r = "ringQ dec"
  let ?res = "length st"
  let ?z = "\<lparr>Coeffs = replicate (length (Modulus ?r)) (replicate (RingN ?r) 0), IsNTT = False\<rparr>"
  let ?st1 = "st @ [?z]"
  let ?cp = "copyCoeffs ?r (Coeffs (st ! c0))"
  let ?st2 = "?st1[?res := ?z\<lparr>Coeffs := ?cp\<rparr>]"
  have new: "NewPoly ?r st = (?res, ?st1)" by (simp add: NewPoly_def)
  have fz: "fits ?r ?z" by (rule exact_fits) (simp add: exact_zero)
  have ov: "overlay ?r ?cp (Coeffs ?z) = ?cp"
    by (rule overlay_exact [OF exact_copyCoeffs]) (simp add: exact_zero)
  have cp: "Copy ?r c0 ?res ?st1 = Some ?st2"
    using c0 fz ov by (simp add: Copy_def nth_append)
  have r2: "?res < length ?st2" by simp
  have e2: "exact ?r (Coeffs (?st2 ! ?res))" by (simp add: exact_copyCoeffs)
  have k2: "\<forall>k \<in> set ks. k < length ?st2 \<and> k \<noteq> ?res \<and> fits ?r (?st2 ! k)"
    using ks by (auto simp: nth_append)
  have same: "map (\<lambda>k. Coeffs (?st2 ! k)) ks = map (\<lambda>k. Coeffs (st ! k)) ks"
    using ks by (auto simp: nth_append)
  from MergeDec_loop_value [OF r2 e2 k2] obtain st' where
    l: "MergeDec_loop ?r ?res ks ?st2 = Some st'" and
    v: "Coeffs (st' ! ?res) = foldl (addCoeffs ?r) (Coeffs (?st2 ! ?res)) (map (\<lambda>k. Coeffs (?st2 ! k)) ks)"
    by blast
  have "MergeDec dec c0 ks st = Some (\<lparr>elValue = [?res]\<rparr>, st')"
    using new cp l by (simp add: MergeDec_def)
  moreover have "Coeffs (st' ! ?res) = foldl (addCoeffs ?r) ?cp (map (\<lambda>k. Coeffs (st ! k)) ks)"
    using v unfolding same by simp
  ultimately show ?thesis by blast
qed

lemma residue_of_sum:
  assumes i: "i < length (Modulus r)" and j: "j < RingN r" and q: "Modulus r ! i \<noteq> 0"
  shows "unat (foldl (addCoeffs r) (copyCoeffs r a) bs ! i ! j) =
     (if bs = [] then unat (a ! i ! j)
      else (unat (a ! i ! j) + (\<Sum>b\<leftarrow>bs. unat (b ! i ! j))) mod unat (Modulus r ! i))"
proof (cases bs)
  case Nil
  then show ?thesis using i j by (simp add: nth_copyCoeffs)
next
  case (Cons b bs')
  have q0: "0 < unat (Modulus r ! i)" using q by (simp add: unat_gt_0)
  have "unat (foldl (addCoeffs r) (copyCoeffs r a) bs ! i ! j) =
      unat (foldl (addmod (Modulus r ! i)) (addmod (Modulus r ! i) (a ! i ! j) (b ! i ! j))
        (map (\<lambda>b. b ! i ! j) bs'))"
    unfolding nth_foldl_addCoeffs [OF i j] Cons using i j by (simp add: nth_copyCoeffs)
  also have "\<dots> = (unat (a ! i ! j) + unat (b ! i ! j) + sum_list (map unat (map (\<lambda>b. b ! i ! j) bs')))
      mod unat (Modulus r ! i)"
    by (rule unat_foldl_addmod [OF q0])
  finally show ?thesis using Cons by (simp add: comp_def add.assoc)
qed

text \<open>
  C5.  Let c0 and every listed share point to polynomials of the store that fit the ring,
  the list being of any length, with or without repetitions, and let no modulus be 0.
  Then MergeDec completes: it returns a plaintext whose single polynomial is the one it
  has just allocated, and that polynomial holds c0 plus the shares, added one after the
  other by the ring's residue-wise modular addition.  Residue by residue: with no
  share it is the residue of c0, otherwise the sum of the residues of c0 and of all
  listed shares, reduced by the modulus of its row.  No count of shares is checked.
\<close>

theorem MergeDec_adds_all_shares:
  assumes "c0 < length st" and "fits (ringQ dec) (st ! c0)"
    and "\<forall>k \<in> set ks. k < length st \<and> fits (ringQ dec) (st ! k)"
    and "\<forall>q \<in> set (Modulus (ringQ dec)). q \<noteq> 0"
  shows "\<exists>st'. MergeDec dec c0 ks st = Some (\<lparr>elValue = [length st]\<rparr>, st') \<and>
     Coeffs (st' ! length st) =
       foldl (addCoeffs (ringQ dec)) (copyCoeffs (ringQ dec) (Coeffs (st ! c0)))
         (map (\<lambda>k. Coeffs (st ! k)) ks) \<and>
     (\<forall>i < length (Modulus (ringQ dec)). \<forall>j < RingN (ringQ dec).
        unat (Coeffs (st' ! length st) ! i ! j) =
          (if ks = [] then unat (Coeffs (st ! c0) ! i ! j)
           else (unat (Coeffs (st ! c0) ! i ! j) + (\<Sum>k\<leftarrow>ks. unat (Coeffs (st ! k) ! i ! j)))
                mod unat (Modulus (ringQ dec) ! i)))"
proof -
  from MergeDec_result [OF assms(1,2,3)] obtain st' where
    m: "MergeDec dec c0 ks st = Some (\<lparr>elValue = [length st]\<rparr>, st')" and
    v: "Coeffs (st' ! length st) =
       foldl (addCoeffs (ringQ dec)) (copyCoeffs (ringQ dec) (Coeffs (st ! c0)))
         (map (\<lambda>k. Coeffs (st ! k)) ks)"
    by blast
  have "unat (Coeffs (st' ! length st) ! i ! j) =
          (if ks = [] then unat (Coeffs (st ! c0) ! i ! j)
           else (unat (Coeffs (st ! c0) ! i ! j) + (\<Sum>k\<leftarrow>ks. unat (Coeffs (st ! k) ! i ! j)))
                mod unat (Modulus (ringQ dec) ! i))"
    if i: "i < length (Modulus (ringQ dec))" and j: "j < RingN (ringQ dec)" for i j
  proof -
    have q: "Modulus (ringQ dec) ! i \<noteq> 0" using assms(4) i by simp
    show ?thesis
      unfolding v residue_of_sum [OF i j q] by (simp add: comp_def)
  qed
  with m v show ?thesis by blast
qed

text \<open>
  C10.  Whenever MergeDec returns, every polynomial that was in the store before the
  call, the one behind c0 and those behind the listed shares among them, is what it
  was; the store has grown by one polynomial, and the plaintext points to that one.
\<close>

theorem MergeDec_keeps_inputs:
  assumes "MergeDec dec c0 ks st = Some (pt, st')"
  shows "take (length st) st' = st \<and> length st' = Suc (length st) \<and> elValue pt = [length st]"
proof -
  let ?r = "ringQ dec"
  let ?st1 = "st @ [\<lparr>Coeffs = replicate (length (Modulus ?r)) (replicate (RingN ?r) 0), IsNTT = False\<rparr>]"
  have n: "NewPoly ?r st = (length st, ?st1)" by (simp add: NewPoly_def)
  from assms obtain st2 where
    cp: "Copy ?r c0 (length st) ?st1 = Some st2" and
    lp: "MergeDec_loop ?r (length st) ks st2 = Some st'" and
    pt: "pt = \<lparr>elValue = [length st]\<rparr>"
    unfolding MergeDec_def n by (auto split: option.splits)
  have len: "length st' = Suc (length st)"
    using MergeDec_loop_frame [OF lp] Copy_frame(1) [OF cp] by simp
  have "st' ! a = st ! a" if "a < length st" for a
  proof -
    have "a \<noteq> length st" using that by simp
    then have "st' ! a = ?st1 ! a"
      using MergeDec_loop_frame [OF lp, of a] Copy_frame(2) [OF cp, of a] by simp
    then show ?thesis using that by (simp add: nth_append)
  qed
  then have "take (length st) st' = st"
    using len by (intro nth_equalityI) simp_all
  with len pt show ?thesis by simp
qed

lemma MergeDec_store17:
  "MergeDec dec17 0 [1, 1, 0] store17 =
     Some (\<lparr>elValue = [3]\<rparr>, store17 @ [\<lparr>Coeffs = [[12, 16]], IsNTT = False\<rparr>])"
  by code_simp

theorem MergeDec_adds_all_shares_witness:
  "\<exists>st'. MergeDec dec17 0 [1, 1, 0] store17 = Some (\<lparr>elValue = [3]\<rparr>, st') \<and>
     Coeffs (st' ! 3) = [[12, 16]] \<and>
     unat (Coeffs (st' ! 3) ! 0 ! 1) = (3 + (5 + 5 + 3)) mod 17"
proof -
  have h1: "0 < length store17" by simp
  have h2: "fits (ringQ dec17) (store17 ! 0)" by (simp add: fits_def)
  have h3: "\<forall>k \<in> set [1, 1, 0]. k < length store17 \<and> fits (ringQ dec17) (store17 ! k)"
    by (simp add: fits_def)
  have h4: "\<forall>q \<in> set (Modulus (ringQ dec17)). q \<noteq> 0" by simp
  have l: "length store17 = 3" by simp
  have e: "foldl (addCoeffs (ringQ dec17)) (copyCoeffs (ringQ dec17) (Coeffs (store17 ! 0)))
             (map (\<lambda>k. Coeffs (store17 ! k)) [1, 1, 0]) = [[12, 16]]"
    by code_simp
  from MergeDec_adds_all_shares [OF h1 h2 h3 h4] obtain st' where
    m: "MergeDec dec17 0 [1, 1, 0] store17 = Some (\<lparr>elValue = [length store17]\<rparr>, st')" and
    v: "Coeffs (st' ! length store17) =
          foldl (addCoeffs (ringQ dec17)) (copyCoeffs (ringQ dec17) (Coeffs (store17 ! 0)))
            (map (\<lambda>k. Coeffs (store17 ! k)) [1, 1, 0])"
    by blast
  have v3: "Coeffs (st' ! 3) = [[12, 16]]"
    using v unfolding l e .
  have "unat (Coeffs (st' ! 3) ! 0 ! 1) = (3 + (5 + 5 + 3)) mod 17"
    unfolding v3 by simp
  with m [unfolded l] v3 show ?thesis by blast
qed

theorem MergeDec_keeps_inputs_witness:
  "MergeDec dec17 0 [1, 1, 0] store17 =
     Some (\<lparr>elValue = [3]\<rparr>, store17 @ [\<lparr>Coeffs = [[12, 16]], IsNTT = False\<rparr>]) \<and>
   take (length store17) (store17 @ [\<lparr>Coeffs = [[12, 16]], IsNTT = False\<rparr>]) = store17 \<and>
   length (store17 @ [\<lparr>Coeffs = [[12, 16]], IsNTT = False\<rparr>]) = Suc (length store17) \<and>
   elValue \<lparr>elValue = [3]\<rparr> = [length store17]"
  using MergeDec_store17 MergeDec_keeps_inputs [OF MergeDec_store17] by simp

text \<open>
  C1.  PartDec on the small instance, with the ciphertext component at address 0, the
  key at address 1 and the caller's output polynomial, all zero, at address 2.  The
  share \<open>ct \<cdot> sk + e = [[9, 16]]\<close> is computed into the polynomial that ReadNew
  allocated at address 3; the caller's polynomial at address 2 is still zero, and
  nothing the call returns leads to address 3.
\<close>

theorem PartDec_share_not_in_out:
  "map_option snd (PartDec dec17 0 \<lparr>key = \<lparr>Value = 1\<rparr>\<rparr> 2 store17) =
     Some (store17 @ [\<lparr>Coeffs = [[9, 16]], IsNTT = False\<rparr>]) \<and>
   Coeffs ((store17 @ [\<lparr>Coeffs = [[9, 16]], IsNTT = False\<rparr>]) ! 2) = [[0, 0]]"
  by code_simp


section \<open>Properties of the encryptor\<close>

subsection \<open>Sequences of steps\<close>

lemma seq_ConsE:
  assumes "seq (f # fs) s = Ok s'"
  obtains s1 where "f s = Ok s1" and "seq fs s1 = Ok s'"
  using assms by (cases "f s") auto

lemma seq_append:
  "seq (xs @ ys) s = (case seq xs s of Ok s1 \<Rightarrow> seq ys s1 | Panic m s1 \<Rightarrow> Panic m s1)"
  by (induction xs arbitrary: s) (auto split: res.splits)

lemma seq_appendE:
  assumes "seq (xs @ ys) s = Ok s'"
  obtains s1 where "seq xs s = Ok s1" and "seq ys s1 = Ok s'"
  using assms unfolding seq_append by (cases "seq xs s") auto

lemma seq_single: "seq [f] s = f s"
  by (cases "f s") auto

lemma keepsRows_seq:
  "list_all keepsRows fs \<Longrightarrow> keepsRows (seq fs)"
proof (induction fs)
  case Nil
  show ?case by (simp add: keepsRows_def)
next
  case (Cons f fs)
  then have f: "keepsRows f" and fs: "keepsRows (seq fs)" by simp_all
  show ?case
    unfolding keepsRows_def
  proof (intro allI impI)
    fix s s' assume "seq (f # fs) s = Ok s'"
    then obtain s1 where "f s = Ok s1" "seq fs s1 = Ok s'" by (rule seq_ConsE)
    then show "rows s' = rows s"
      using f fs unfolding keepsRows_def by metis
  qed
qed

lemma keepsTags_seq:
  "list_all keepsTags fs \<Longrightarrow> keepsTags (seq fs)"
proof (induction fs)
  case Nil
  show ?case by (simp add: keepsTags_def)
next
  case (Cons f fs)
  then have f: "keepsTags f" and fs: "keepsTags (seq fs)" by simp_all
  show ?case
    unfolding keepsTags_def
  proof (intro allI impI)
    fix s s' assume "seq (f # fs) s = Ok s'"
    then obtain s1 where "f s = Ok s1" "seq fs s1 = Ok s'" by (rule seq_ConsE)
    then show "tags s' = tags s"
      using f fs unfolding keepsTags_def by metis
  qed
qed

lemma keepsRows_if [simp]:
  "keepsRows (if c then f else g) = (if c then keepsRows f else keepsRows g)"
  by simp

lemma keepsTags_if [simp]:
  "keepsTags (if c then f else g) = (if c then keepsTags f else keepsTags g)"
  by simp

lemma keepsRows_Ok [simp]: "keepsRows Ok"
  by (simp add: keepsRows_def)

lemma keepsTags_Ok [simp]: "keepsTags Ok"
  by (simp add: keepsTags_def)

subsection \<open>What each operation leaves alone\<close>

lemma writeRows_length [simp]: "length (Coeffs (writeRows lvl f p)) = length (Coeffs p)"
  by (simp add: writeRows_def)

lemma writeRows_IsNTT [simp]: "IsNTT (writeRows lvl f p) = IsNTT p"
  by (simp add: writeRows_def)

lemma update_keeps:
  assumes "update F name args srcs dst s = Ok s'"
  shows "rows s' = rows s" and "tags s' = tags s" and "calls s' = calls s" and "draws s' = draws s"
  using assms by (auto simp: update_def rows_def tags_def fun_eq_iff split: if_splits)

lemma logCall_keeps [simp]:
  "rows (logCall name args s) = rows s" "tags (logCall name args s) = tags s"
  by (simp_all add: logCall_def rows_def tags_def fun_eq_iff)

lemma keepsRows_update [simp]: "keepsRows (update F name args srcs dst)"
  unfolding keepsRows_def using update_keeps(1) by blast

lemma keepsTags_update [simp]: "keepsTags (update F name args srcs dst)"
  unfolding keepsTags_def using update_keeps(2) by blast

lemma keepsRows_after_log:
  assumes "\<And>s. f s = g (logCall n a s)" and "keepsRows g"
  shows "keepsRows f"
  using assms by (simp add: keepsRows_def)

lemma keepsTags_after_log:
  assumes "\<And>s. f s = g (logCall n a s)" and "keepsTags g"
  shows "keepsTags f"
  using assms by (simp add: keepsTags_def)

lemma keepsRows_ringQ [simp]: "keepsRows (ringQ_Lvl C name lvl srcs dst)"
  by (rule keepsRows_after_log [OF ringQ_Lvl_def keepsRows_update])

lemma keepsTags_ringQ [simp]: "keepsTags (ringQ_Lvl C name lvl srcs dst)"
  by (rule keepsTags_after_log [OF ringQ_Lvl_def keepsTags_update])

lemma keepsRows_ringQP [simp]: "keepsRows (ringQP C name lq lp srcs dst)"
  unfolding keepsRows_def
proof (intro allI impI)
  fix s s' assume a: "ringQP C name lq lp srcs dst s = Ok s'"
  have "keepsRows (seq [update (ringQ_op C) name [lq, lp] (map (\<lambda>x. (fst x, lq)) srcs) (fst dst, lq),
          if hasP C
          then update (ringP_op C) name [lq, lp] (map (\<lambda>x. (snd x, lp)) srcs) (snd dst, lp)
          else Ok])"
    by (rule keepsRows_seq) simp
  with a have "rows s' = rows (logCall (''ringQP.'' @ name) [lq, lp] s)"
    unfolding ringQP_def keepsRows_def by blast
  then show "rows s' = rows s" by simp
qed

lemma keepsTags_ringQP [simp]: "keepsTags (ringQP C name lq lp srcs dst)"
  unfolding keepsTags_def
proof (intro allI impI)
  fix s s' assume a: "ringQP C name lq lp srcs dst s = Ok s'"
  have "keepsTags (seq [update (ringQ_op C) name [lq, lp] (map (\<lambda>x. (fst x, lq)) srcs) (fst dst, lq),
          if hasP C
          then update (ringP_op C) name [lq, lp] (map (\<lambda>x. (snd x, lp)) srcs) (snd dst, lp)
          else Ok])"
    by (rule keepsTags_seq) simp
  with a have "tags s' = tags (logCall (''ringQP.'' @ name) [lq, lp] s)"
    unfolding ringQP_def keepsTags_def by blast
  then show "tags s' = tags s" by simp
qed

lemma keepsRows_ExtendBasis [simp]: "keepsRows (ExtendBasisSmallNormAndCenter C q lp p)"
  by (rule keepsRows_after_log [OF ExtendBasisSmallNormAndCenter_def keepsRows_update])

lemma keepsTags_ExtendBasis [simp]: "keepsTags (ExtendBasisSmallNormAndCenter C q lp p)"
  by (rule keepsTags_after_log [OF ExtendBasisSmallNormAndCenter_def keepsTags_update])

lemma keepsRows_ModDown [simp]: "keepsRows (ModDownQPtoQ C lq lp a b c)"
  by (rule keepsRows_after_log [OF ModDownQPtoQ_def keepsRows_update])

lemma keepsTags_ModDown [simp]: "keepsTags (ModDownQPtoQ C lq lp a b c)"
  by (rule keepsTags_after_log [OF ModDownQPtoQ_def keepsTags_update])

lemma keepsRows_ReadLvl [simp]: "keepsRows (ReadLvl C smp lvl p)"
  by (auto simp: keepsRows_def ReadLvl_def Let_def rows_def logCall_def fun_eq_iff split: if_splits)

lemma keepsTags_ReadLvl [simp]: "keepsTags (ReadLvl C smp lvl p)"
  by (auto simp: keepsTags_def ReadLvl_def Let_def tags_def logCall_def fun_eq_iff split: if_splits)

lemma keepsRows_ReadAndAddLvl [simp]: "keepsRows (\<lambda>s. ReadAndAddLvl C smp (lvl s) p s)"
  by (auto simp: keepsRows_def ReadAndAddLvl_def Let_def rows_def logCall_def fun_eq_iff split: if_splits)

lemma keepsTags_ReadAndAddLvl [simp]: "keepsTags (\<lambda>s. ReadAndAddLvl C smp (lvl s) p s)"
  by (auto simp: keepsTags_def ReadAndAddLvl_def Let_def tags_def logCall_def fun_eq_iff split: if_splits)

lemma keepsRows_CopyValues [simp]: "keepsRows (CopyValues p0 p1)"
  by (auto simp: keepsRows_def CopyValues_def Let_def rows_def logCall_def fun_eq_iff split: if_splits)

lemma keepsTags_CopyValues [simp]: "keepsTags (CopyValues p0 p1)"
  by (auto simp: keepsTags_def CopyValues_def Let_def tags_def logCall_def fun_eq_iff split: if_splits)

lemma keepsRows_setIsNTT [simp]: "keepsRows (\<lambda>s. setIsNTT p (b s) s)"
  by (auto simp: keepsRows_def setIsNTT_def rows_def fun_eq_iff)

lemma keepsRows_setIsNTT' [simp]: "keepsRows (setIsNTT p b)"
  by (auto simp: keepsRows_def setIsNTT_def rows_def fun_eq_iff)

lemma keepsTags_truncate [simp]: "keepsTags (truncate p n)"
  by (auto simp: keepsTags_def truncate_def tags_def fun_eq_iff split: if_splits)

subsection \<open>The end of an encryption\<close>

lemma seq_snocE:
  assumes "seq xs s = Ok s'" and "xs \<noteq> []"
  obtains s1 where "seq (butlast xs) s = Ok s1" and "last xs s1 = Ok s'"
proof -
  have "seq (butlast xs @ [last xs]) s = Ok s'"
    using assms by simp
  then obtain s1 where "seq (butlast xs) s = Ok s1" "seq [last xs] s1 = Ok s'"
    by (rule seq_appendE)
  then show ?thesis using that by (simp only: seq_single)
qed

lemma tagsAgree_seq_last:
  assumes "fs \<noteq> []" and "tagsAgree (last fs)"
  shows "tagsAgree (seq fs)"
  unfolding tagsAgree_def
proof (intro allI impI)
  fix s s' assume "seq fs s = Ok s'"
  then obtain s1 where "last fs s1 = Ok s'"
    using assms(1) by (rule seq_snocE)
  then show "tags s' (CtValue 1) = tags s' (CtValue 0)"
    using assms(2) unfolding tagsAgree_def by blast
qed

lemma tagsAgree_sync [simp]:
  "tagsAgree (\<lambda>s. setIsNTT (CtValue (Suc 0)) (IsNTT (mem s (CtValue 0))) s)"
  by (simp add: tagsAgree_def setIsNTT_def tags_def)

lemma tagsAgree_set_both:
  assumes "2 \<le> length fs"
    and "last (butlast fs) = setIsNTT (CtValue 0) b" and "last fs = setIsNTT (CtValue 1) b"
  shows "tagsAgree (seq fs)"
  unfolding tagsAgree_def
proof (intro allI impI)
  fix s s' assume run: "seq fs s = Ok s'"
  have ne: "fs \<noteq> []" "butlast fs \<noteq> []"
    using assms(1) by (auto simp: Suc_le_eq numeral_2_eq_2 dest: arg_cong [where f = length])
  from run ne(1) obtain s2 where r2: "seq (butlast fs) s = Ok s2" and l2: "last fs s2 = Ok s'"
    by (rule seq_snocE)
  from r2 ne(2) obtain s1 where l1: "last (butlast fs) s1 = Ok s2"
    by (rule seq_snocE)
  show "tags s' (CtValue 1) = tags s' (CtValue 0)"
    using l1 l2 unfolding assms(2,3) by (auto simp: setIsNTT_def tags_def)
qed

lemma tagsAgree_if [simp]:
  "tagsAgree (if c then f else g) = (if c then tagsAgree f else tagsAgree g)"
  by simp

text \<open>
  A sequence of steps that ends with the two truncations to \<open>n\<close> rows, the tags of
  the two components being equal before them.
\<close>

lemma epilogue:
  assumes run: "seq xs s = Ok s'" and len: "2 \<le> length xs"
    and t0: "last (butlast xs) = truncate (CtValue 0) n"
    and t1: "last xs = truncate (CtValue 1) n"
    and agree: "tagsAgree (seq (butlast (butlast xs)))"
  shows "int (rows s' (CtValue 0)) = n \<and> int (rows s' (CtValue 1)) = n
         \<and> tags s' (CtValue 1) = tags s' (CtValue 0)"
proof -
  have ne: "xs \<noteq> []" "butlast xs \<noteq> []"
    using len by (auto simp: Suc_le_eq numeral_2_eq_2 dest: arg_cong [where f = length])
  from run ne(1) obtain s2 where r2: "seq (butlast xs) s = Ok s2" and l2: "truncate (CtValue 1) n s2 = Ok s'"
    unfolding t1 [symmetric] by (rule seq_snocE)
  from r2 ne(2) obtain s1 where r1: "seq (butlast (butlast xs)) s = Ok s1"
    and l1: "truncate (CtValue 0) n s1 = Ok s2"
    unfolding t0 [symmetric] by (rule seq_snocE)
  have a1: "tags s1 (CtValue 1) = tags s1 (CtValue 0)"
    using agree r1 unfolding tagsAgree_def by blast
  have c0: "int (rows s2 (CtValue 0)) = n" "tags s2 = tags s1"
    using l1 by (auto simp: truncate_def rows_def tags_def fun_eq_iff split: if_splits)
  have c1: "int (rows s' (CtValue 1)) = n" "tags s' = tags s2" "rows s' (CtValue 0) = rows s2 (CtValue 0)"
    using l2 by (auto simp: truncate_def rows_def tags_def fun_eq_iff split: if_splits)
  show ?thesis using a1 c0 c1 by simp
qed

lemma pkEncryptor_encrypt_exit:
  assumes "pkEncryptor_encrypt C s0 = Ok s'"
  shows "int (rows s' (CtValue 0)) = min (Level (mem s0 PtValue)) (Level (mem s0 (CtValue 0))) + 1
       \<and> int (rows s' (CtValue 1)) = min (Level (mem s0 PtValue)) (Level (mem s0 (CtValue 0))) + 1
       \<and> tags s' (CtValue 1) = tags s' (CtValue 0)"
  by (rule epilogue [OF assms [unfolded pkEncryptor_encrypt_def Let_def]])
     (simp_all add: tagsAgree_seq_last)

lemma pkEncryptor_encryptNoP_exit:
  assumes "pkEncryptor_encryptNoP C s0 = Ok s'"
  shows "int (rows s' (CtValue 0)) = min (Level (mem s0 PtValue)) (Level (mem s0 (CtValue 0))) + 1
       \<and> int (rows s' (CtValue 1)) = min (Level (mem s0 PtValue)) (Level (mem s0 (CtValue 0))) + 1
       \<and> tags s' (CtValue 1) = tags s' (CtValue 0)"
  by (rule epilogue [OF assms [unfolded pkEncryptor_encryptNoP_def Let_def]])
     (simp_all add: tagsAgree_seq_last)

lemma skEncryptor_encrypt_exit:
  assumes "skEncryptor_encrypt C s0 = Ok s'"
  shows "int (rows s' (CtValue 0)) = min (Level (mem s0 PtValue)) (Level (mem s0 (CtValue 0))) + 1
       \<and> int (rows s' (CtValue 1)) = min (Level (mem s0 PtValue)) (Level (mem s0 (CtValue 0))) + 1
       \<and> tags s' (CtValue 1) = tags s' (CtValue 0)"
  by (rule epilogue [OF assms [unfolded skEncryptor_encrypt_def Let_def]])
     (simp_all add: tagsAgree_seq_last tagsAgree_set_both)

lemma Level_rows: "Level (mem s r) = int (rows s r) - 1"
  by (simp add: Level_def rows_def)

lemma keepsRows_Level:
  assumes "keepsRows f" and "f s = Ok s1"
  shows "Level (mem s1 r) = Level (mem s r)"
  using assms unfolding keepsRows_def Level_rows by metis

lemma Encrypt_exit:
  assumes "Encrypt C enc s0 = Ok s' \<or> EncryptFromCRP C enc s0 = Ok s'"
  shows "int (length (Coeffs (mem s' (CtValue 0))))
           = min (Level (mem s0 PtValue)) (Level (mem s0 (CtValue 0))) + 1
       \<and> int (length (Coeffs (mem s' (CtValue 1))))
           = min (Level (mem s0 PtValue)) (Level (mem s0 (CtValue 0))) + 1
       \<and> IsNTT (mem s' (CtValue 1)) = IsNTT (mem s' (CtValue 0))"
proof -
  let ?L = "min (Level (mem s0 PtValue)) (Level (mem s0 (CtValue 0)))"
  let ?first = "ReadLvl C ''uniformSamplerQ'' ?L (CtValue 1)"
  have "\<exists>s1. (\<forall>r. Level (mem s1 r) = Level (mem s0 r)) \<and>
          (pkEncryptor_encrypt C s1 = Ok s' \<or> pkEncryptor_encryptNoP C s1 = Ok s'
           \<or> skEncryptor_encrypt C s1 = Ok s')"
    using assms
  proof
    assume run: "Encrypt C enc s0 = Ok s'"
    show ?thesis
    proof (cases enc)
      case pkEncryptor
      with run have "seq [?first, if hasP C then pkEncryptor_encrypt C else pkEncryptor_encryptNoP C] s0 = Ok s'"
        by (simp add: Encrypt_def)
      then obtain s1 where f: "?first s0 = Ok s1"
        and r: "seq [if hasP C then pkEncryptor_encrypt C else pkEncryptor_encryptNoP C] s1 = Ok s'"
        by (rule seq_ConsE)
      from r have "pkEncryptor_encrypt C s1 = Ok s' \<or> pkEncryptor_encryptNoP C s1 = Ok s'"
        unfolding seq_single by (simp split: if_splits)
      with keepsRows_Level [OF keepsRows_ReadLvl f] show ?thesis by blast
    next
      case skEncryptor
      with run have "seq [?first, skEncryptor_encrypt C] s0 = Ok s'"
        by (simp add: Encrypt_def)
      then obtain s1 where f: "?first s0 = Ok s1" and r: "seq [skEncryptor_encrypt C] s1 = Ok s'"
        by (rule seq_ConsE)
      from r have "skEncryptor_encrypt C s1 = Ok s'"
        unfolding seq_single .
      with keepsRows_Level [OF keepsRows_ReadLvl f] show ?thesis by blast
    qed
  next
    assume run: "EncryptFromCRP C enc s0 = Ok s'"
    then have "seq [CopyValues Crp (CtValue 1), skEncryptor_encrypt C] s0 = Ok s'"
      by (cases enc) (simp_all add: EncryptFromCRP_def)
    then obtain s1 where f: "CopyValues Crp (CtValue 1) s0 = Ok s1"
      and r: "seq [skEncryptor_encrypt C] s1 = Ok s'"
      by (rule seq_ConsE)
    from r have "skEncryptor_encrypt C s1 = Ok s'"
      unfolding seq_single .
    with keepsRows_Level [OF keepsRows_CopyValues f] show ?thesis by blast
  qed
  then obtain s1 where lv: "\<And>r. Level (mem s1 r) = Level (mem s0 r)"
    and inner: "pkEncryptor_encrypt C s1 = Ok s' \<or> pkEncryptor_encryptNoP C s1 = Ok s'
           \<or> skEncryptor_encrypt C s1 = Ok s'"
    by blast
  from inner have "int (rows s' (CtValue 0)) = min (Level (mem s1 PtValue)) (Level (mem s1 (CtValue 0))) + 1
       \<and> int (rows s' (CtValue 1)) = min (Level (mem s1 PtValue)) (Level (mem s1 (CtValue 0))) + 1
       \<and> tags s' (CtValue 1) = tags s' (CtValue 0)"
    using pkEncryptor_encrypt_exit pkEncryptor_encryptNoP_exit skEncryptor_encrypt_exit by blast
  then show ?thesis
    unfolding lv by (simp add: rows_def tags_def)
qed


subsection \<open>Steps that return\<close>

lemma returns_seq_Nil: "returns P (seq []) P"
  by (simp add: returns_def)

lemma returns_seq_Cons:
  assumes "returns P f Q" and "returns Q (seq fs) R"
  shows "returns P (seq (f # fs)) R"
  unfolding returns_def
proof (intro allI impI)
  fix s assume "P s"
  then obtain s1 where "f s = Ok s1" "Q s1" using assms(1) unfolding returns_def by blast
  moreover from \<open>Q s1\<close> obtain s' where "seq fs s1 = Ok s'" "R s'"
    using assms(2) unfolding returns_def by blast
  ultimately show "\<exists>s'. seq (f # fs) s = Ok s' \<and> R s'" by simp
qed

lemma returns_seq:
  "list_all (\<lambda>f. returns I f I) fs \<Longrightarrow> returns I (seq fs) I"
  by (induction fs) (auto intro: returns_seq_Nil returns_seq_Cons)

lemma returns_seq_map:
  assumes "\<And>x. x \<in> set xs \<Longrightarrow> returns I (f x) I"
  shows "returns I (seq (map f xs)) I"
  by (rule returns_seq) (simp add: list_all_iff assms)

lemma returns_seq_append:
  assumes "returns P (seq xs) Q" and "returns Q (seq ys) R"
  shows "returns P (seq (xs @ ys)) R"
  unfolding returns_def
proof (intro allI impI)
  fix s assume "P s"
  then obtain s1 where "seq xs s = Ok s1" "Q s1" using assms(1) unfolding returns_def by blast
  moreover from \<open>Q s1\<close> obtain s' where "seq ys s1 = Ok s'" "R s'"
    using assms(2) unfolding returns_def by blast
  ultimately show "\<exists>s'. seq (xs @ ys) s = Ok s' \<and> R s'" by (simp add: seq_append)
qed

lemma returns_Ok [simp]: "returns I Ok I"
  by (simp add: returns_def)

lemma returns_if [simp]:
  "returns P (if c then f else g) Q = (if c then returns P f Q else returns P g Q)"
  by simp

lemma shaped_logCall [simp]: "shaped C R m n (logCall name args s) = shaped C R m n s"
  by (simp add: shaped_def logCall_def rows_def fun_eq_iff)

lemma returns_after_log:
  assumes "\<And>s. f s = g (logCall name args s)" and "returns (shaped C R m n) g Q"
  shows "returns (shaped C R m n) f Q"
  using assms unfolding returns_def by (metis shaped_logCall)

lemma logCall_fields [simp]:
  "mem (logCall name args s) = mem s" "draws (logCall name args s) = draws s"
  "rgswRows (logCall name args s) = rgswRows s" "rgswCols (logCall name args s) = rgswCols s"
  by (simp_all add: logCall_def)

lemma returns_logged:
  assumes "returns (shaped C R m n) g Q"
  shows "returns (shaped C R m n) (\<lambda>s. g (logCall name args s)) Q"
  using assms unfolding returns_def by (metis shaped_logCall)

lemma shaped_reaches:
  assumes "shaped C R m n s"
  shows "reaches s x = (snd x < int (R (fst x)))"
  using assms by (auto simp: shaped_def reaches_def Level_def rows_def)

lemma writeRows_row_lengths:
  assumes "\<forall>row \<in> set (Coeffs p). length row = k" and "\<And>i. length (f i) = k"
  shows "\<forall>row \<in> set (Coeffs (writeRows lvl f p)). length row = k"
  using assms by (auto simp: writeRows_def)

lemma returns_update:
  assumes F: "\<And>name args i ins. length (F name args i ins) = ringQ_N C"
    and b: "list_all (\<lambda>x. snd x < int (R (fst x))) (dst # srcs)"
  shows "returns (shaped C R m n) (update F name args srcs dst) (shaped C R m n)"
  unfolding returns_def
proof (intro allI impI)
  fix s assume sh: "shaped C R m n s"
  have "list_all (reaches s) (dst # srcs)"
    using b unfolding shaped_reaches [OF sh] .
  then have ok: "update F name args srcs dst s =
      Ok (s\<lparr>mem := (mem s)(fst dst :=
                 writeRows (snd dst) (\<lambda>i. F name args i (map (\<lambda>x. Coeffs (mem s (fst x))) srcs))
                   (mem s (fst dst)))\<rparr>)" (is "_ = Ok ?s'")
    by (simp add: update_def)
  have "\<forall>row \<in> set (Coeffs (writeRows (snd dst) (\<lambda>i. F name args i (map (\<lambda>x. Coeffs (mem s (fst x))) srcs))
                   (mem s (fst dst)))). length row = ringQ_N C"
    by (rule writeRows_row_lengths) (use sh F in \<open>auto simp: shaped_def\<close>)
  then have "shaped C R m n ?s'"
    using sh by (auto simp: shaped_def rows_def fun_eq_iff)
  with ok show "\<exists>s'. update F name args srcs dst s = Ok s' \<and> shaped C R m n s'" by blast
qed

lemma returns_ringQ:
  assumes "capOk C" and "\<forall>r \<in> set (dst # srcs). lvl < int (R r)"
  shows "returns (shaped C R m n) (ringQ_Lvl C name lvl srcs dst) (shaped C R m n)"
  unfolding ringQ_Lvl_def [abs_def]
  by (rule returns_logged, rule returns_update) (use assms in \<open>auto simp: capOk_def list_all_iff\<close>)

lemma returns_ringQP:
  assumes "capOk C" and "\<forall>x \<in> set (dst # srcs). lq < int (R (fst x))"
    and "hasP C \<Longrightarrow> \<forall>x \<in> set (dst # srcs). lp < int (R (snd x))"
  shows "returns (shaped C R m n) (ringQP C name lq lp srcs dst) (shaped C R m n)"
proof (rule returns_after_log [where g = "seq [update (ringQ_op C) name [lq, lp] (map (\<lambda>x. (fst x, lq)) srcs) (fst dst, lq),
          if hasP C
          then update (ringP_op C) name [lq, lp] (map (\<lambda>x. (snd x, lp)) srcs) (snd dst, lp)
          else Ok]"])
  show "ringQP C name lq lp srcs dst s =
    seq [update (ringQ_op C) name [lq, lp] (map (\<lambda>x. (fst x, lq)) srcs) (fst dst, lq),
          if hasP C
          then update (ringP_op C) name [lq, lp] (map (\<lambda>x. (snd x, lp)) srcs) (snd dst, lp)
          else Ok] (logCall (''ringQP.'' @ name) [lq, lp] s)" for s
    by (simp only: ringQP_def)
  have q: "returns (shaped C R m n)
     (update (ringQ_op C) name [lq, lp] (map (\<lambda>x. (fst x, lq)) srcs) (fst dst, lq)) (shaped C R m n)"
    by (rule returns_update) (use assms(1,2) in \<open>auto simp: capOk_def list_all_iff\<close>)
  have p: "returns (shaped C R m n)
     (update (ringP_op C) name [lq, lp] (map (\<lambda>x. (snd x, lp)) srcs) (snd dst, lp)) (shaped C R m n)"
    if "hasP C"
    by (rule returns_update) (use assms(1) assms(3) [OF that] in \<open>auto simp: capOk_def list_all_iff\<close>)
  show "returns (shaped C R m n)
     (seq [update (ringQ_op C) name [lq, lp] (map (\<lambda>x. (fst x, lq)) srcs) (fst dst, lq),
          if hasP C
          then update (ringP_op C) name [lq, lp] (map (\<lambda>x. (snd x, lp)) srcs) (snd dst, lp)
          else Ok]) (shaped C R m n)"
    by (rule returns_seq) (use q p in simp)
qed

lemma returns_ExtendBasis:
  assumes "capOk C" and "0 < R q" and "lp < int (R p)"
  shows "returns (shaped C R m n) (ExtendBasisSmallNormAndCenter C q lp p) (shaped C R m n)"
  unfolding ExtendBasisSmallNormAndCenter_def [abs_def]
  by (rule returns_logged, rule returns_update) (use assms in \<open>auto simp: capOk_def\<close>)

lemma returns_ModDown:
  assumes "capOk C" and "lq < int (R a)" and "lp < int (R b)" and "lq < int (R c)"
  shows "returns (shaped C R m n) (ModDownQPtoQ C lq lp a b c) (shaped C R m n)"
  unfolding ModDownQPtoQ_def [abs_def]
  by (rule returns_logged, rule returns_update) (use assms in \<open>auto simp: capOk_def\<close>)

lemma returns_MulScalarBigintLvl:
  assumes "capOk C" and "lvl < int (R p1)" and "lvl < int (R p2)"
  shows "returns (shaped C R m n) (MulScalarBigintLvl C lvl p1 scalar p2) (shaped C R m n)"
  unfolding MulScalarBigintLvl_def [abs_def]
  by (rule returns_logged, rule returns_update) (use assms in \<open>auto simp: capOk_def\<close>)

lemma returns_MulScalar:
  assumes "capOk C" and "length (ringQ_Modulus C) \<le> R p1" and "length (ringQ_Modulus C) \<le> R p2"
  shows "returns (shaped C R m n) (MulScalar C p1 scalar p2) (shaped C R m n)"
proof (rule returns_after_log [where g = "update (ringQ_op C) ''MulScalar'' [scalar]
      [(p1, int (length (ringQ_Modulus C)) - 1)] (p2, int (length (ringQ_Modulus C)) - 1)"])
  show "MulScalar C p1 scalar p2 s =
      update (ringQ_op C) ''MulScalar'' [scalar]
      [(p1, int (length (ringQ_Modulus C)) - 1)] (p2, int (length (ringQ_Modulus C)) - 1)
        (logCall ''ringQ.MulScalar'' [] s)" for s
    by (simp add: MulScalar_def Let_def)
  show "returns (shaped C R m n)
     (update (ringQ_op C) ''MulScalar'' [scalar]
      [(p1, int (length (ringQ_Modulus C)) - 1)] (p2, int (length (ringQ_Modulus C)) - 1)) (shaped C R m n)"
    by (rule returns_update) (use assms in \<open>auto simp: capOk_def\<close>)
qed

lemma returns_ReadLvl:
  assumes "capOk C" and "lvl < int (R p)"
  shows "returns (shaped C R m n) (ReadLvl C smp lvl p) (shaped C R m n)"
  unfolding returns_def
proof (intro allI impI)
  fix s assume sh: "shaped C R m n s"
  let ?s = "logCall (smp @ ''.ReadLvl'') [lvl] s"
  have sh': "shaped C R m n ?s" using sh by simp
  have r: "reaches ?s (p, lvl)"
    using assms(2) unfolding shaped_reaches [OF sh'] by simp
  have "\<forall>row \<in> set (Coeffs (writeRows lvl (sample C smp (draws ?s)) (mem ?s p))). length row = ringQ_N C"
    by (rule writeRows_row_lengths) (use sh' assms(1) in \<open>auto simp: shaped_def capOk_def\<close>)
  then have "shaped C R m n (?s\<lparr>mem := (mem ?s)(p := writeRows lvl (sample C smp (draws ?s)) (mem ?s p)),
                 draws := Suc (draws ?s)\<rparr>)"
    using sh' by (auto simp: shaped_def rows_def fun_eq_iff)
  then show "\<exists>s'. ReadLvl C smp lvl p s = Ok s' \<and> shaped C R m n s'"
    using r by (simp add: ReadLvl_def Let_def)
qed

lemma returns_ReadAndAddLvl:
  assumes "capOk C" and "R r \<le> R p"
  shows "returns (shaped C R m n) (\<lambda>s. ReadAndAddLvl C smp (Level (mem s r)) p s) (shaped C R m n)"
  unfolding returns_def
proof (intro allI impI)
  fix s assume sh: "shaped C R m n s"
  let ?lvl = "Level (mem s r)"
  let ?s = "logCall (smp @ ''.ReadAndAddLvl'') [?lvl] s"
  let ?f = "\<lambda>i. ringQ_op C ''Add'' [?lvl] i
                        [Coeffs (mem ?s p), map (sample C smp (draws ?s)) [0..<length (Coeffs (mem ?s p))]]"
  have lvl: "?lvl = int (R r) - 1"
    using sh by (auto simp: shaped_def Level_def rows_def)
  have sh': "shaped C R m n ?s" using sh by simp
  have rc: "reaches ?s (p, ?lvl)"
    using assms(2) lvl shaped_reaches [OF sh', of "(p, ?lvl)"] by simp
  have "\<forall>row \<in> set (Coeffs (writeRows ?lvl ?f (mem ?s p))). length row = ringQ_N C"
    by (rule writeRows_row_lengths) (use sh' assms(1) in \<open>auto simp: shaped_def capOk_def\<close>)
  then have "shaped C R m n (?s\<lparr>mem := (mem ?s)(p := writeRows ?lvl ?f (mem ?s p)),
                 draws := Suc (draws ?s)\<rparr>)"
    using sh' by (auto simp: shaped_def rows_def fun_eq_iff)
  then show "\<exists>s'. ReadAndAddLvl C smp ?lvl p s = Ok s' \<and> shaped C R m n s'"
    using rc by (simp add: ReadAndAddLvl_def Let_def)
qed

lemma returns_CopyValues:
  assumes "R p1 \<le> R p0"
  shows "returns (shaped C R m n) (CopyValues p0 p1) (shaped C R m n)"
  unfolding returns_def
proof (intro allI impI)
  fix s assume sh: "shaped C R m n s"
  let ?s = "logCall ''ring.CopyValues'' [] s"
  have sh': "shaped C R m n ?s" using sh by simp
  have le: "length (Coeffs (mem ?s p1)) \<le> length (Coeffs (mem ?s p0))"
    using sh assms by (auto simp: shaped_def rows_def fun_eq_iff logCall_def)
  have "\<forall>row \<in> set (map (\<lambda>i. Coeffs (mem ?s p0) ! i) [0..<length (Coeffs (mem ?s p1))]).
          length row = ringQ_N C"
  proof -
    have "length (Coeffs (mem s p0) ! i) = ringQ_N C" if "i < length (Coeffs (mem s p1))" for i
    proof -
      have "Coeffs (mem s p0) ! i \<in> set (Coeffs (mem s p0))"
        using that le by simp
      then show ?thesis using sh unfolding shaped_def by blast
    qed
    then show ?thesis by auto
  qed
  then have "shaped C R m n (?s\<lparr>mem := (mem ?s)(p1 := (mem ?s p1)\<lparr>Coeffs :=
                   map (\<lambda>i. Coeffs (mem ?s p0) ! i) [0..<length (Coeffs (mem ?s p1))]\<rparr>)\<rparr>)"
    using sh' by (auto simp: shaped_def rows_def fun_eq_iff)
  then show "\<exists>s'. CopyValues p0 p1 s = Ok s' \<and> shaped C R m n s'"
    using le by (simp add: CopyValues_def Let_def)
qed

lemma returns_setIsNTT [simp]:
  "returns (shaped C R m n) (setIsNTT p b) (shaped C R m n)"
  by (auto simp: returns_def setIsNTT_def shaped_def rows_def fun_eq_iff)

lemma returns_setIsNTT_sync [simp]:
  "returns (shaped C R m n) (\<lambda>s. setIsNTT p (b s) s) (shaped C R m n)"
  by (auto simp: returns_def setIsNTT_def shaped_def rows_def fun_eq_iff)

lemma returns_truncate:
  assumes "0 \<le> k" and "k \<le> int (R p)"
  shows "returns (shaped C R m n) (truncate p k) (shaped C (R(p := nat k)) m n)"
  using assms
  by (auto simp: returns_def truncate_def shaped_def rows_def fun_eq_iff dest: in_set_takeD)

lemma returns_cell:
  assumes "i < m" and "j < n"
  shows "returns (shaped C R m n) (cell i j) (shaped C R m n)"
  using assms by (auto simp: returns_def cell_def shaped_def)

lemma returns_epilogue:
  assumes "2 \<le> length xs"
    and "returns I (seq (butlast (butlast xs))) I"
    and "returns I (last (butlast xs)) I'"
    and "returns I' (last xs) I''"
  shows "returns I (seq xs) I''"
proof -
  have ne: "xs \<noteq> []" "butlast xs \<noteq> []"
    using assms(1) by (auto simp: Suc_le_eq numeral_2_eq_2 dest: arg_cong [where f = length])
  have "xs = butlast (butlast xs) @ [last (butlast xs), last xs]"
    using ne by (metis append_butlast_last_id append.assoc append_Cons append_Nil)
  moreover have "returns I (seq (butlast (butlast xs) @ [last (butlast xs), last xs])) I''"
    by (rule returns_seq_append [OF assms(2)])
       (rule returns_seq_Cons [OF assms(3)], rule returns_seq_Cons [OF assms(4)], rule returns_seq_Nil)
  ultimately show ?thesis by simp
qed

lemma returnsD:
  assumes "returns P f Q" and "P s"
  shows "\<exists>s'. f s = Ok s' \<and> Q s'"
  using assms unfolding returns_def by blast

lemma returns_epilogueD:
  assumes "I s" and "2 \<le> length xs"
    and "returns I (seq (butlast (butlast xs))) I"
    and "returns I (last (butlast xs)) I'"
    and "returns I' (last xs) I''"
  shows "\<exists>s'. seq xs s = Ok s' \<and> I'' s'"
  by (rule returnsD [OF returns_epilogue [OF assms(2-5)] assms(1)])

lemma returns_seqD:
  assumes "I s" and "list_all (\<lambda>f. returns I f I) fs"
  shows "\<exists>s'. seq fs s = Ok s' \<and> I s'"
  by (rule returnsD [OF returns_seq [OF assms(2)] assms(1)])

lemma returns_weaken:
  assumes "returns P f Q" and "\<And>s. P' s \<Longrightarrow> P s" and "\<And>s. Q s \<Longrightarrow> Q' s"
  shows "returns P' f Q'"
  using assms unfolding returns_def by blast

text \<open>
  The three encryption routines return on a shaped state whose ciphertext components
  have the same number of rows and whose keys and buffers have at least as many.
\<close>

lemma skEncryptor_encrypt_returns:
  assumes cap: "capOk C"
    and c1: "R (CtValue 1) = R (CtValue 0)"
    and sk: "R (CtValue 0) \<le> R SkQ" and pool: "R (CtValue 0) \<le> R (PoolQ 0)"
  defines "L \<equiv> min (int (R PtValue) - 1) (int (R (CtValue 0)) - 1)"
  shows "returns (shaped C R m n) (skEncryptor_encrypt C)
          (shaped C (R(CtValue 0 := nat (L + 1), CtValue 1 := nat (L + 1))) m n)"
  unfolding returns_def
proof (intro allI impI)
  fix s assume s: "shaped C R m n s"
  have Ls: "min (Level (mem s PtValue)) (Level (mem s (CtValue 0))) = L"
    using s by (auto simp: L_def shaped_def Level_def rows_def)
  have b: "L < int (R PtValue)" "L < int (R (CtValue 0))" "L < int (R (CtValue (Suc 0)))"
    "L < int (R SkQ)" "L < int (R (PoolQ 0))"
    using c1 sk pool by (auto simp: L_def)
  have t: "0 \<le> L + 1" "L + 1 \<le> int (R (CtValue 0))" "L + 1 \<le> int (R (CtValue (Suc 0)))"
    using c1 by (auto simp: L_def)
  have ra: "R (CtValue 0) \<le> R (CtValue 0)" by simp
  note step = returns_ringQ [OF cap] returns_ReadLvl [OF cap] returns_ReadAndAddLvl [OF cap]
  show "\<exists>s'. skEncryptor_encrypt C s = Ok s' \<and>
        shaped C (R(CtValue 0 := nat (L + 1), CtValue 1 := nat (L + 1))) m n s'"
    unfolding skEncryptor_encrypt_def Let_def Ls
    by (rule returns_epilogueD [where I = "shaped C R m n"
          and I' = "shaped C (R(CtValue 0 := nat (L + 1))) m n", OF s])
       (use b t ra in \<open>simp_all add: step returns_seq returns_truncate\<close>)
qed

lemma pkEncryptor_encryptNoP_returns:
  assumes cap: "capOk C"
    and c1: "R (CtValue 1) = R (CtValue 0)"
    and pk: "R (CtValue 0) \<le> R (PkQ 0)" "R (CtValue 0) \<le> R (PkQ 1)"
    and pool: "R (CtValue 0) \<le> R (PoolQ 0)"
  defines "L \<equiv> min (int (R PtValue) - 1) (int (R (CtValue 0)) - 1)"
  shows "returns (shaped C R m n) (pkEncryptor_encryptNoP C)
          (shaped C (R(CtValue 0 := nat (L + 1), CtValue 1 := nat (L + 1))) m n)"
  unfolding returns_def
proof (intro allI impI)
  fix s assume s: "shaped C R m n s"
  have Ls: "min (Level (mem s PtValue)) (Level (mem s (CtValue 0))) = L"
    using s by (auto simp: L_def shaped_def Level_def rows_def)
  have b: "L < int (R PtValue)" "L < int (R (CtValue 0))" "L < int (R (CtValue (Suc 0)))"
    "L < int (R (PkQ 0))" "L < int (R (PkQ (Suc 0)))" "L < int (R (PoolQ 0))"
    using c1 pk pool by (auto simp: L_def)
  have t: "0 \<le> L + 1" "L + 1 \<le> int (R (CtValue 0))" "L + 1 \<le> int (R (CtValue (Suc 0)))"
    using c1 by (auto simp: L_def)
  have ra: "R (CtValue 0) \<le> R (CtValue 0)" "R (CtValue 0) \<le> R (CtValue (Suc 0))"
    using c1 by simp_all
  note step = returns_ringQ [OF cap] returns_ReadLvl [OF cap] returns_ReadAndAddLvl [OF cap]
  show "\<exists>s'. pkEncryptor_encryptNoP C s = Ok s' \<and>
        shaped C (R(CtValue 0 := nat (L + 1), CtValue 1 := nat (L + 1))) m n s'"
    unfolding pkEncryptor_encryptNoP_def Let_def Ls
    by (rule returns_epilogueD [where I = "shaped C R m n"
          and I' = "shaped C (R(CtValue 0 := nat (L + 1))) m n", OF s])
       (use b t ra in \<open>simp_all add: step returns_seq returns_truncate\<close>)
qed

lemma pkEncryptor_encrypt_returns:
  assumes cap: "capOk C"
    and c1: "R (CtValue 1) = R (CtValue 0)"
    and pk: "R (CtValue 0) \<le> R (PkQ 0)" "R (CtValue 0) \<le> R (PkQ 1)"
    and pool: "R (CtValue 0) \<le> R (PoolQ 0)" "0 < R (PoolQ 0)"
    and p: "0 < R (PoolP 0)" "0 < R (PoolP 1)" "0 < R (PoolP 2)" "0 < R (PkP 0)" "0 < R (PkP 1)"
  defines "L \<equiv> min (int (R PtValue) - 1) (int (R (CtValue 0)) - 1)"
  shows "returns (shaped C R m n) (pkEncryptor_encrypt C)
          (shaped C (R(CtValue 0 := nat (L + 1), CtValue 1 := nat (L + 1))) m n)"
  unfolding returns_def
proof (intro allI impI)
  fix s assume s: "shaped C R m n s"
  have Ls: "min (Level (mem s PtValue)) (Level (mem s (CtValue 0))) = L"
    using s by (auto simp: L_def shaped_def Level_def rows_def)
  have b: "L < int (R PtValue)" "L < int (R (CtValue 0))" "L < int (R (CtValue (Suc 0)))"
    "L < int (R (PkQ 0))" "L < int (R (PkQ (Suc 0)))" "L < int (R (PoolQ 0))"
    using c1 pk pool by (auto simp: L_def)
  have p': "0 < R (PoolP (Suc 0))" "0 < R (PkP (Suc 0))"
    using p by simp_all
  have t: "0 \<le> L + 1" "L + 1 \<le> int (R (CtValue 0))" "L + 1 \<le> int (R (CtValue (Suc 0)))"
    using c1 by (auto simp: L_def)
  note step = returns_ringQ [OF cap] returns_ringQP [OF cap] returns_ReadLvl [OF cap]
    returns_ExtendBasis [OF cap] returns_ModDown [OF cap]
  show "\<exists>s'. pkEncryptor_encrypt C s = Ok s' \<and>
        shaped C (R(CtValue 0 := nat (L + 1), CtValue 1 := nat (L + 1))) m n s'"
    unfolding pkEncryptor_encrypt_def Let_def Ls
    by (rule returns_epilogueD [where I = "shaped C R m n"
          and I' = "shaped C (R(CtValue 0 := nat (L + 1))) m n", OF s])
       (use b t p p' pool(2) in \<open>simp_all add: step returns_seq returns_truncate\<close>)
qed

lemma Encrypt_returns:
  assumes cap: "capOk C" and s: "shaped C R m n s"
    and c1: "R (CtValue 1) = R (CtValue 0)"
    and pool: "R (CtValue 0) \<le> R (PoolQ 0)"
    and sk: "enc = skEncryptor \<Longrightarrow> R (CtValue 0) \<le> R SkQ"
    and pk: "enc = pkEncryptor \<Longrightarrow> R (CtValue 0) \<le> R (PkQ 0) \<and> R (CtValue 0) \<le> R (PkQ 1)"
    and p: "enc = pkEncryptor \<Longrightarrow> hasP C \<Longrightarrow>
       0 < R (PoolQ 0) \<and> 0 < R (PoolP 0) \<and> 0 < R (PoolP 1) \<and> 0 < R (PoolP 2)
       \<and> 0 < R (PkP 0) \<and> 0 < R (PkP 1)"
  shows "\<exists>s'. Encrypt C enc s = Ok s'"
proof -
  define L where "L = min (int (R PtValue) - 1) (int (R (CtValue 0)) - 1)"
  let ?Q = "shaped C (R(CtValue 0 := nat (L + 1), CtValue 1 := nat (L + 1))) m n"
  have Ls: "min (Level (mem s PtValue)) (Level (mem s (CtValue 0))) = L"
    using s by (auto simp: L_def shaped_def Level_def rows_def)
  have first: "returns (shaped C R m n) (ReadLvl C ''uniformSamplerQ'' L (CtValue 1)) (shaped C R m n)"
    by (rule returns_ReadLvl [OF cap]) (use c1 in \<open>auto simp: L_def\<close>)
  show ?thesis
  proof (cases enc)
    case skEncryptor
    have "returns (shaped C R m n) (seq [ReadLvl C ''uniformSamplerQ'' L (CtValue 1), skEncryptor_encrypt C]) ?Q"
      unfolding L_def
      by (intro returns_seq_Cons [OF first [unfolded L_def]]
            returns_seq_Cons [OF skEncryptor_encrypt_returns [OF cap c1 sk [OF skEncryptor] pool]]
            returns_seq_Nil)
    moreover have "Encrypt C enc s = seq [ReadLvl C ''uniformSamplerQ'' L (CtValue 1),
              skEncryptor_encrypt C] s"
      by (simp add: Encrypt_def skEncryptor Ls)
    ultimately show ?thesis
      using s unfolding returns_def by metis
  next
    case pkEncryptor
    note pk' = pk [OF pkEncryptor]
    have "returns (shaped C R m n)
        (seq [ReadLvl C ''uniformSamplerQ'' L (CtValue 1),
              if hasP C then pkEncryptor_encrypt C else pkEncryptor_encryptNoP C]) ?Q"
    proof (cases "hasP C")
      case True
      note p' = p [OF pkEncryptor True]
      have "returns (shaped C R m n) (pkEncryptor_encrypt C) ?Q"
        unfolding L_def
        by (rule pkEncryptor_encrypt_returns [OF cap c1 _ _ pool]) (use pk' p' in simp_all)
      then show ?thesis
        using True by (intro returns_seq_Cons [OF first] returns_seq_Cons [of _ _ ?Q] returns_seq_Nil) simp
    next
      case False
      have "returns (shaped C R m n) (pkEncryptor_encryptNoP C) ?Q"
        unfolding L_def
        by (rule pkEncryptor_encryptNoP_returns [OF cap c1 _ _ pool]) (use pk' in simp_all)
      then show ?thesis
        using False by (intro returns_seq_Cons [OF first] returns_seq_Cons [of _ _ ?Q] returns_seq_Nil) simp
    qed
    moreover have "Encrypt C enc s = seq [ReadLvl C ''uniformSamplerQ'' L (CtValue 1),
              if hasP C then pkEncryptor_encrypt C else pkEncryptor_encryptNoP C] s"
      by (simp add: Encrypt_def pkEncryptor Ls)
    ultimately show ?thesis
      using s unfolding returns_def by metis
  qed
qed

lemma EncryptFromCRP_sk_returns:
  assumes cap: "capOk C" and s: "shaped C R m n s"
    and c1: "R (CtValue 1) = R (CtValue 0)"
    and crp: "R (CtValue 1) \<le> R Crp"
    and pool: "R (CtValue 0) \<le> R (PoolQ 0)"
    and sk: "R (CtValue 0) \<le> R SkQ"
  shows "\<exists>s'. EncryptFromCRP C skEncryptor s = Ok s'"
proof -
  have "returns (shaped C R m n) (seq [CopyValues Crp (CtValue 1), skEncryptor_encrypt C])
     (shaped C (R(CtValue 0 := nat (min (int (R PtValue) - 1) (int (R (CtValue 0)) - 1) + 1),
        CtValue 1 := nat (min (int (R PtValue) - 1) (int (R (CtValue 0)) - 1) + 1))) m n)"
    by (intro returns_seq_Cons [OF returns_CopyValues [OF crp]]
          returns_seq_Cons [OF skEncryptor_encrypt_returns [OF cap c1 sk pool]] returns_seq_Nil)
  from returnsD [OF this s] show ?thesis
    by (auto simp: EncryptFromCRP_def)
qed

subsection \<open>The innermost loop of EncryptRGSW\<close>

lemma length_addedRow [simp]: "length (addedRow C qi p0tmp ptmp) = length ptmp"
  by (simp add: addedRow_def)

lemma addPlaintextRow_Ok:
  assumes sh: "shaped C R m n s"
    and b: "index < length (ringQ_Modulus C)" "index < R (PoolQ 1)"
      "index < R (RgswQ i j 0 0)" "index < R (RgswQ i j 1 1)"
  shows "addPlaintextRow C i j index s =
     Ok (s\<lparr>mem := (mem s)
          (RgswQ i j 0 0 := (mem s (RgswQ i j 0 0))\<lparr>Coeffs := (Coeffs (mem s (RgswQ i j 0 0)))
             [index := addedRow C (ringQ_Modulus C ! index) (Coeffs (mem s (PoolQ 1)) ! index)
                         (Coeffs (mem s (RgswQ i j 0 0)) ! index)]\<rparr>,
           RgswQ i j 1 1 := (mem s (RgswQ i j 1 1))\<lparr>Coeffs := (Coeffs (mem s (RgswQ i j 1 1)))
             [index := addedRow C (ringQ_Modulus C ! index) (Coeffs (mem s (PoolQ 1)) ! index)
                         (Coeffs (mem s (RgswQ i j 1 1)) ! index)]\<rparr>)\<rparr>)"
proof -
  have len: "length (Coeffs (mem s r)) = R r" for r
    using sh by (auto simp: shaped_def rows_def fun_eq_iff)
  have row: "length (Coeffs (mem s r) ! index) = ringQ_N C" if "index < R r" for r
  proof -
    have "Coeffs (mem s r) ! index \<in> set (Coeffs (mem s r))"
      using that len by simp
    then show ?thesis using sh unfolding shaped_def by blast
  qed
  show ?thesis
    using b by (simp add: addPlaintextRow_def Let_def len row)
qed

lemma returns_addPlaintextRow:
  assumes b: "index < length (ringQ_Modulus C)" "index < R (PoolQ 1)"
      "index < R (RgswQ i j 0 0)" "index < R (RgswQ i j 1 1)"
  shows "returns (shaped C R m n) (addPlaintextRow C i j index) (shaped C R m n)"
  unfolding returns_def
proof (intro allI impI)
  fix s assume sh: "shaped C R m n s"
  have len: "length (Coeffs (mem s r)) = R r" for r
    using sh by (auto simp: shaped_def rows_def fun_eq_iff)
  have rows: "\<forall>row \<in> set (Coeffs (mem s r)). length row = ringQ_N C" for r
    using sh unfolding shaped_def by blast
  have upd: "\<forall>row \<in> set ((Coeffs (mem s r))[index := addedRow C q t (Coeffs (mem s r) ! index)]).
      length row = ringQ_N C" if "index < R r" for r q t
  proof
    fix row assume "row \<in> set ((Coeffs (mem s r))[index := addedRow C q t (Coeffs (mem s r) ! index)])"
    then have "row = addedRow C q t (Coeffs (mem s r) ! index) \<or> row \<in> set (Coeffs (mem s r))"
      using set_update_subset_insert by fastforce
    moreover have "Coeffs (mem s r) ! index \<in> set (Coeffs (mem s r))"
      using that len by simp
    ultimately show "length row = ringQ_N C"
      using rows [of r] by auto
  qed
  show "\<exists>s'. addPlaintextRow C i j index s = Ok s' \<and> shaped C R m n s'"
    unfolding addPlaintextRow_Ok [OF sh b]
    using sh upd [OF b(3)] upd [OF b(4)] rows
    by (auto simp: shaped_def rows_def fun_eq_iff)
qed

lemma returns_addPlaintextLoop:
  assumes lp: "0 \<le> levelP + 1"
    and b: "levelQ < int (length (ringQ_Modulus C))" "levelQ < int (R (PoolQ 1))"
      "levelQ < int (R (RgswQ i j 0 0))" "levelQ < int (R (RgswQ i j 1 1))"
  shows "returns (shaped C R m n) (addPlaintextLoop C levelQ levelP i j ks) (shaped C R m n)"
proof (induction ks)
  case Nil
  show ?case by (simp add: returns_def)
next
  case (Cons k ks)
  let ?index = "int i * (levelP + 1) + int k"
  show ?case
  proof (cases "levelQ + 1 \<le> ?index")
    case True
    then show ?thesis by (simp add: returns_def)
  next
    case False
    have i0: "0 \<le> ?index" using lp by simp
    have "returns (shaped C R m n) (addPlaintextRow C i j (nat ?index)) (shaped C R m n)"
      by (rule returns_addPlaintextRow) (use False i0 b in auto)
    then show ?thesis
      using Cons.IH False unfolding returns_def
      by (simp add: Let_def) (metis res.simps(5))
  qed
qed



subsection \<open>EncryptRGSW returns on well-formed arguments\<close>

lemma returns_encryptZeroSymetricQP:
  assumes cap: "capOk C"
    and q: "lq < int (R (fst a))" "lq < int (R (fst b))" "lq < int (R (fst sk))" "lq < int (R (PoolQ 0))"
      "0 < R (fst a)" "0 < R (PoolQ 0)"
    and p: "hasP C \<Longrightarrow> lp < int (R (snd a)) \<and> lp < int (R (snd b)) \<and> lp < int (R (snd sk))
         \<and> lp < int (R (PoolP 0))"
    and h: "R (snd a) \<noteq> 0 \<and> R (snd b) \<noteq> 0 \<Longrightarrow> hasP C"
  shows "returns (shaped C R m n) (encryptZeroSymetricQP C lq lp sk True ntt a b) (shaped C R m n)"
  unfolding returns_def
proof (intro allI impI)
  fix s assume s: "shaped C R m n s"
  have len: "length (Coeffs (mem s r)) = R r" for r
    using s by (auto simp: shaped_def rows_def fun_eq_iff)
  have hm: "(Coeffs (mem s (snd a)) \<noteq> [] \<and> Coeffs (mem s (snd b)) \<noteq> [])
      = (R (snd a) \<noteq> 0 \<and> R (snd b) \<noteq> 0)"
    using len [of "snd a"] len [of "snd b"] by (metis length_0_conv)
  note step = returns_ringQP [OF cap] returns_ReadLvl [OF cap] returns_ExtendBasis [OF cap]
  show "\<exists>s'. encryptZeroSymetricQP C lq lp sk True ntt a b s = Ok s' \<and> shaped C R m n s'"
    unfolding encryptZeroSymetricQP_def Let_def hm
    by (rule returns_seqD [where I = "shaped C R m n", OF s])
       (use q p h in \<open>auto simp: step returns_seq\<close>)
qed

lemma pBigInt_Some:
  assumes "0 \<le> lp" and "lp < int (length (ringP_Modulus C))"
  shows "\<exists>v. pBigInt C lp = Some v"
  using assms by (auto simp: pBigInt_def)

lemma rgswScalePlaintext_returns:
  assumes cap: "capOk C"
    and pt: "\<not> plaintext_nil \<Longrightarrow> lq < int (R PtValue)"
    and pool: "lq < int (R (PoolQ 1))"
    and lp: "- 1 \<le> lp0" "lp0 < int (length (ringP_Modulus C))"
  shows "returns (shaped C R m n) (rgswScalePlaintext C plaintext_nil ptNTT lq lp0) (shaped C R m n)"
proof (cases "\<not> plaintext_nil \<and> lp0 \<noteq> - 1")
  case True
  then obtain v where v: "pBigInt C lp0 = Some v"
    using pBigInt_Some [of lp0 C] lp by auto
  show ?thesis
    unfolding rgswScalePlaintext_def Let_def using True pt pool
    by (simp add: v returns_seq returns_MulScalarBigintLvl [OF cap] returns_ringQ [OF cap])
next
  case False
  then show ?thesis
    unfolding rgswScalePlaintext_def Let_def using pt pool
    by (auto simp: returns_ringQ [OF cap])
qed

lemma rgswCell_returns:
  assumes cap: "capOk C" and i: "i < m" and j: "j < n"
    and cells: "\<forall>a < 2. \<forall>b < 2. R (RgswQ i j a b) = q \<and> R (RgswP i j a b) = p"
    and q: "0 < q" "lq = int q - 1" "q \<le> length (ringQ_Modulus C)"
      "q \<le> R (PoolQ 0)" "q \<le> R (PoolQ 1)" "q \<le> R SkQ"
    and p: "hasP C = (0 < p)" "hasP C \<Longrightarrow> lp = int p - 1" "p \<le> R (PoolP 0)" "p \<le> R SkP"
      "0 \<le> lp + 1"
  shows "returns (shaped C R m n) (rgswCell C plaintext_nil ntt lq lp i j) (shaped C R m n)"
proof -
  have c: "R (RgswQ i j 0 0) = q" "R (RgswQ i j 0 (Suc 0)) = q" "R (RgswQ i j (Suc 0) 0) = q"
    "R (RgswQ i j (Suc 0) (Suc 0)) = q"
    "R (RgswP i j 0 0) = p" "R (RgswP i j 0 (Suc 0)) = p" "R (RgswP i j (Suc 0) 0) = p"
    "R (RgswP i j (Suc 0) (Suc 0)) = p"
    using cells by simp_all
  have z: "returns (shaped C R m n)
      (encryptZeroSymetricQP C lq lp (SkQ, SkP) True ntt (RgswQ i j a 0, RgswP i j a 0)
         (RgswQ i j a (Suc 0), RgswP i j a (Suc 0))) (shaped C R m n)" if "a < 2" for a
    by (rule returns_encryptZeroSymetricQP [OF cap]) (use that cells q p in auto)
  have l: "returns (shaped C R m n) (addPlaintextLoop C lq lp i j ks) (shaped C R m n)" for ks
    by (rule returns_addPlaintextLoop) (use c q p in auto)
  have f: "returns (shaped C R m n)
      (ringQP C ''MFormLvl'' lq lp [(RgswQ i j a b, RgswP i j a b)] (RgswQ i j a b, RgswP i j a b))
      (shaped C R m n)" if "a < 2" "b < 2" for a b
    by (rule returns_ringQP [OF cap]) (use that cells q p in auto)
  show ?thesis
    unfolding rgswCell_def
    by (rule returns_seq) (use z [of 0] z [of 1] l f [of 0 0] f [of 0 1] f [of 1 0] f [of 1 1] i j
        in \<open>simp add: returns_cell\<close>)
qed


lemma rgswOkD:
  assumes "rgswOk C R m n plaintext_nil"
  shows "0 < m" and "0 < n" and "0 < R (RgswQ 0 0 0 0)"
    and "nat (DecompRNS C (int (R (RgswQ 0 0 0 0)) - 1)
           (if \<not> plaintext_nil \<and> R (RgswP 0 0 0 0) = 0 then 0 else int (R (RgswP 0 0 0 0)) - 1)) \<le> m"
    and "nat (DecompBIT C (int (R (RgswQ 0 0 0 0)) - 1)
           (if \<not> plaintext_nil \<and> R (RgswP 0 0 0 0) = 0 then 0 else int (R (RgswP 0 0 0 0)) - 1)) \<le> n"
    and "\<And>i j a b. i < m \<Longrightarrow> j < n \<Longrightarrow> a < 2 \<Longrightarrow> b < 2 \<Longrightarrow>
           R (RgswQ i j a b) = R (RgswQ 0 0 0 0) \<and> R (RgswP i j a b) = R (RgswP 0 0 0 0)"
    and "hasP C = (0 < R (RgswP 0 0 0 0))"
    and "R (RgswP 0 0 0 0) \<le> length (ringP_Modulus C)"
    and "R (RgswQ 0 0 0 0) \<le> length (ringQ_Modulus C)"
    and "length (ringQ_Modulus C) \<le> R (PoolQ 1)"
    and "R (RgswQ 0 0 0 0) \<le> R (PoolQ 0)"
    and "R (RgswQ 0 0 0 0) \<le> R SkQ"
    and "R (RgswP 0 0 0 0) \<le> R (PoolP 0)"
    and "R (RgswP 0 0 0 0) \<le> R SkP"
    and "\<not> plaintext_nil \<Longrightarrow> R (RgswQ 0 0 0 0) \<le> R PtValue"
  using assms unfolding rgswOk_def Let_def by blast+

lemma skEncryptor_EncryptRGSW_returns:
  assumes cap: "capOk C" and s: "shaped C R m n s" and ok: "rgswOk C R m n plaintext_nil"
  shows "\<exists>s'. skEncryptor_EncryptRGSW C plaintext_nil s = Ok s'"
proof -
  let ?q = "R (RgswQ 0 0 0 0)"
  let ?p = "R (RgswP 0 0 0 0)"
  let ?lq = "int ?q - 1"
  let ?lp = "if \<not> plaintext_nil \<and> ?p = 0 then 0 else int ?p - 1"
  note d = rgswOkD [OF ok]
  have len: "length (Coeffs (mem s r)) = R r" for r
    using s by (auto simp: shaped_def rows_def fun_eq_iff)
  have lvQ: "Level (mem s (RgswQ 0 0 0 0)) = ?lq"
    by (simp add: Level_def len)
  have lvP: "Level (mem s (RgswP 0 0 0 0)) = int ?p - 1"
    by (simp add: Level_def len)
  have lvP': "(if \<not> plaintext_nil \<and> int ?p - 1 = - 1 then 0 else int ?p - 1) = ?lp"
    by simp
  have grid: "cell 0 0 s = Ok s"
    using d(1,2) s by (simp add: cell_def shaped_def)
  have lp0: "0 \<le> ?lp + 1" by simp
  have lpP: "?lp = int ?p - 1" if "hasP C"
    using that d(7) by simp
  have pre: "returns (shaped C R m n)
      (rgswScalePlaintext C plaintext_nil ntt ?lq (int ?p - 1)) (shaped C R m n)" for ntt
  proof (rule rgswScalePlaintext_returns [OF cap])
    show "?lq < int (R PtValue)" if "\<not> plaintext_nil"
      using d(15) [OF that] by simp
    show "?lq < int (R (PoolQ 1))"
      using d(9,10) by simp
    show "- 1 \<le> int ?p - 1" by simp
    show "int ?p - 1 < int (length (ringP_Modulus C))"
      using d(8) by simp
  qed
  have body: "returns (shaped C R m n) (rgswCell C plaintext_nil ntt ?lq ?lp i j) (shaped C R m n)"
    if i: "i < nat (DecompRNS C ?lq ?lp)" and j: "j < nat (DecompBIT C ?lq ?lp)" for i j ntt
  proof (rule rgswCell_returns [OF cap, where q = ?q and p = ?p])
    show im: "i < m" using i d(4) by (rule less_le_trans)
    show jn: "j < n" using j d(5) by (rule less_le_trans)
    show "\<forall>a<2. \<forall>b<2. R (RgswQ i j a b) = ?q \<and> R (RgswP i j a b) = ?p"
      using d(6) [OF im jn] by blast
    show "0 < ?q" by (rule d(3))
    show "?lq = int ?q - 1" by (rule refl)
    show "?q \<le> length (ringQ_Modulus C)" by (rule d(9))
    show "?q \<le> R (PoolQ 0)" by (rule d(11))
    show "?q \<le> R (PoolQ 1)" using d(9,10) by (rule le_trans)
    show "?q \<le> R SkQ" by (rule d(12))
    show "hasP C = (0 < ?p)" by (rule d(7))
    show "?lp = int ?p - 1" if "hasP C" using that by (rule lpP)
    show "?p \<le> R (PoolP 0)" by (rule d(13))
    show "?p \<le> R SkP" by (rule d(14))
    show "0 \<le> ?lp + 1" by (rule lp0)
  qed
  have scale: "returns (shaped C R m n)
      (MulScalar C (PoolQ 1) v (PoolQ 1)) (shaped C R m n)" for v
    by (rule returns_MulScalar [OF cap]) (rule d(10))+
  have loops: "returns (shaped C R m n)
      (seq (map (\<lambda>j.
                seq [seq (map (\<lambda>i. rgswCell C plaintext_nil ntt ?lq ?lp i j)
                            [0..<nat (DecompRNS C ?lq ?lp)]),
                     MulScalar C (PoolQ 1) (uint (push_bit (LogBase2 C) (1 :: uint64))) (PoolQ 1)])
              [0..<nat (DecompBIT C ?lq ?lp)])) (shaped C R m n)" for ntt
  proof (rule returns_seq_map)
    fix j assume "j \<in> set [0..<nat (DecompBIT C ?lq ?lp)]"
    then have j: "j < nat (DecompBIT C ?lq ?lp)" by simp
    have "returns (shaped C R m n)
        (seq (map (\<lambda>i. rgswCell C plaintext_nil ntt ?lq ?lp i j) [0..<nat (DecompRNS C ?lq ?lp)]))
        (shaped C R m n)"
    proof (rule returns_seq_map)
      fix i assume "i \<in> set [0..<nat (DecompRNS C ?lq ?lp)]"
      then have "i < nat (DecompRNS C ?lq ?lp)" by simp
      then show "returns (shaped C R m n) (rgswCell C plaintext_nil ntt ?lq ?lp i j) (shaped C R m n)"
        using j by (rule body)
    qed
    then show "returns (shaped C R m n)
        (seq [seq (map (\<lambda>i. rgswCell C plaintext_nil ntt ?lq ?lp i j) [0..<nat (DecompRNS C ?lq ?lp)]),
              MulScalar C (PoolQ 1) (uint (push_bit (LogBase2 C) (1 :: uint64))) (PoolQ 1)])
        (shaped C R m n)"
      by (rule returns_seq_Cons) (rule returns_seq_Cons [OF scale returns_seq_Nil])
  qed
  have "returns (shaped C R m n)
     (seq [rgswScalePlaintext C plaintext_nil (IsNTT (mem s PtValue)) ?lq (int ?p - 1),
         seq (map (\<lambda>j.
                seq [seq (map (\<lambda>i. rgswCell C plaintext_nil (IsNTT (mem s (RgswQ 0 0 0 0))) ?lq ?lp i j)
                            [0..<nat (DecompRNS C ?lq ?lp)]),
                     MulScalar C (PoolQ 1) (uint (push_bit (LogBase2 C) (1 :: uint64))) (PoolQ 1)])
              [0..<nat (DecompBIT C ?lq ?lp)])]) (shaped C R m n)"
    by (rule returns_seq_Cons [OF pre]) (rule returns_seq_Cons [OF loops returns_seq_Nil])
  then obtain s' where "seq [rgswScalePlaintext C plaintext_nil (IsNTT (mem s PtValue)) ?lq (int ?p - 1),
         seq (map (\<lambda>j.
                seq [seq (map (\<lambda>i. rgswCell C plaintext_nil (IsNTT (mem s (RgswQ 0 0 0 0))) ?lq ?lp i j)
                            [0..<nat (DecompRNS C ?lq ?lp)]),
                     MulScalar C (PoolQ 1) (uint (push_bit (LogBase2 C) (1 :: uint64))) (PoolQ 1)])
              [0..<nat (DecompBIT C ?lq ?lp)])] s = Ok s'"
    using s unfolding returns_def by blast
  moreover have "skEncryptor_EncryptRGSW C plaintext_nil s =
      seq [rgswScalePlaintext C plaintext_nil (IsNTT (mem s PtValue)) ?lq (int ?p - 1),
         seq (map (\<lambda>j.
                seq [seq (map (\<lambda>i. rgswCell C plaintext_nil (IsNTT (mem s (RgswQ 0 0 0 0))) ?lq ?lp i j)
                            [0..<nat (DecompRNS C ?lq ?lp)]),
                     MulScalar C (PoolQ 1) (uint (push_bit (LogBase2 C) (1 :: uint64))) (PoolQ 1)])
              [0..<nat (DecompBIT C ?lq ?lp)])] s"
    unfolding skEncryptor_EncryptRGSW_def grid Let_def lvQ lvP lvP'
    by (simp only: res.case)
  ultimately show ?thesis by (simp only: exI)
qed

subsection \<open>The small instance is well formed\<close>

lemma capOk_cap0: "capOk cap0"
  by (simp add: capOk_def cap0_def)

lemma shaped_state0: "shaped cap0 shape0 2 1 state0"
  by (auto simp add: shaped_def rows_def fun_eq_iff state0_def mem0_def shape0_def cap0_def
      split: reg.splits)

lemma rgswOk_shape0: "rgswOk cap0 shape0 2 1 plaintext_nil"
  by (simp add: rgswOk_def shape0_def cap0_def)

lemma level_state0:
  "Level (mem state0 PtValue) = 0" "Level (mem state0 (CtValue 0)) = 1"
  by (simp_all add: Level_def state0_def mem0_def)


subsection \<open>The level of the noise addition\<close>

text \<open>
  C2 does not hold of the code.  In the small instance the plaintext is at level 0 and
  the ciphertext at level 1, both in the coefficient domain, so the working level is 0.
  Under a secret key, and under a public key without auxiliary modulus, every call of
  Encrypt is made at level 0 except those of the Gaussian sampler's ReadAndAddLvl,
  which are made at level 1, the level the ciphertext has on entry.
\<close>

theorem Encrypt_noise_above_working_level:
  "min (Level (mem state0 PtValue)) (Level (mem state0 (CtValue 0))) = 0 \<and>
   Level (mem state0 (CtValue 0)) = 1 \<and>
   callsOf (Encrypt cap0 skEncryptor state0) =
     [Call ''uniformSamplerQ.ReadLvl'' [0],
      Call ''ringQ.MulCoeffsMontgomeryLvl'' [0],
      Call ''ringQ.NegLvl'' [0],
      Call ''ringQ.InvNTTLvl'' [0],
      Call ''ringQ.AddLvl'' [0],
      Call ''gaussianSampler.ReadAndAddLvl'' [1],
      Call ''ringQ.InvNTTLvl'' [0]] \<and>
   callsOf (Encrypt cap0 pkEncryptor state0) =
     [Call ''uniformSamplerQ.ReadLvl'' [0],
      Call ''ternarySampler.ReadLvl'' [0],
      Call ''ringQ.NTTLvl'' [0],
      Call ''ringQ.MFormLvl'' [0],
      Call ''ringQ.MulCoeffsMontgomeryLvl'' [0],
      Call ''ringQ.MulCoeffsMontgomeryLvl'' [0],
      Call ''ringQ.InvNTTLvl'' [0],
      Call ''ringQ.InvNTTLvl'' [0],
      Call ''gaussianSampler.ReadAndAddLvl'' [1],
      Call ''gaussianSampler.ReadAndAddLvl'' [1],
      Call ''ringQ.AddLvl'' [0]]"
  by code_simp


lemma returned_iff: "returned x = (\<exists>s'. x = Ok s')"
  by (cases x) (simp_all add: returned_def)

text \<open>
  C8.  Whenever an encryption entry point returns (Encrypt under a public key, with or
  without the auxiliary modulus, Encrypt under a secret key, EncryptFromCRP under a
  secret key), both components of the ciphertext have exactly \<open>L + 1\<close> rows, where
  \<open>L\<close> is the lesser of the levels the plaintext and the ciphertext had on entry, and
  the two components carry the same domain tag.  And Encrypt does return when the
  capability and the state are well formed: rows of N residues everywhere, the two
  components of the ciphertext with the same number of rows, and the buffer and the key
  with at least as many (under a public key with auxiliary modulus, the buffers and the
  key over P with at least one row).
\<close>

theorem Encrypt_exit_level_and_tags:
  "(Encrypt C enc s0 = Ok s' \<or> EncryptFromCRP C enc s0 = Ok s' \<longrightarrow>
      int (length (Coeffs (mem s' (CtValue 0))))
        = min (Level (mem s0 PtValue)) (Level (mem s0 (CtValue 0))) + 1
      \<and> int (length (Coeffs (mem s' (CtValue 1))))
        = min (Level (mem s0 PtValue)) (Level (mem s0 (CtValue 0))) + 1
      \<and> IsNTT (mem s' (CtValue 1)) = IsNTT (mem s' (CtValue 0))) \<and>
   (capOk C \<and> shaped C R m n s0 \<and> R (CtValue 1) = R (CtValue 0)
      \<and> R (CtValue 0) \<le> R (PoolQ 0)
      \<and> (enc = skEncryptor \<longrightarrow> R (CtValue 0) \<le> R SkQ)
      \<and> (enc = pkEncryptor \<longrightarrow> R (CtValue 0) \<le> R (PkQ 0) \<and> R (CtValue 0) \<le> R (PkQ 1))
      \<and> (enc = pkEncryptor \<and> hasP C \<longrightarrow>
            0 < R (PoolQ 0) \<and> 0 < R (PoolP 0) \<and> 0 < R (PoolP 1) \<and> 0 < R (PoolP 2)
            \<and> 0 < R (PkP 0) \<and> 0 < R (PkP 1)) \<longrightarrow>
    returned (Encrypt C enc s0))"
proof (intro conjI impI)
  assume "Encrypt C enc s0 = Ok s' \<or> EncryptFromCRP C enc s0 = Ok s'"
  note e = Encrypt_exit [OF this]
  from e show "int (length (Coeffs (mem s' (CtValue 0))))
        = min (Level (mem s0 PtValue)) (Level (mem s0 (CtValue 0))) + 1" by blast
  from e show "int (length (Coeffs (mem s' (CtValue 1))))
        = min (Level (mem s0 PtValue)) (Level (mem s0 (CtValue 0))) + 1" by blast
  from e show "IsNTT (mem s' (CtValue 1)) = IsNTT (mem s' (CtValue 0))" by blast
next
  assume a: "capOk C \<and> shaped C R m n s0 \<and> R (CtValue 1) = R (CtValue 0)
      \<and> R (CtValue 0) \<le> R (PoolQ 0)
      \<and> (enc = skEncryptor \<longrightarrow> R (CtValue 0) \<le> R SkQ)
      \<and> (enc = pkEncryptor \<longrightarrow> R (CtValue 0) \<le> R (PkQ 0) \<and> R (CtValue 0) \<le> R (PkQ 1))
      \<and> (enc = pkEncryptor \<and> hasP C \<longrightarrow>
            0 < R (PoolQ 0) \<and> 0 < R (PoolP 0) \<and> 0 < R (PoolP 1) \<and> 0 < R (PoolP 2)
            \<and> 0 < R (PkP 0) \<and> 0 < R (PkP 1))"
  have "\<exists>s'. Encrypt C enc s0 = Ok s'"
  proof (rule Encrypt_returns [where R = R and m = m and n = n])
    show "capOk C" using a by blast
    show "shaped C R m n s0" using a by blast
    show "R (CtValue 1) = R (CtValue 0)" using a by blast
    show "R (CtValue 0) \<le> R (PoolQ 0)" using a by blast
    show "enc = skEncryptor \<Longrightarrow> R (CtValue 0) \<le> R SkQ" using a by blast
    show "enc = pkEncryptor \<Longrightarrow> R (CtValue 0) \<le> R (PkQ 0) \<and> R (CtValue 0) \<le> R (PkQ 1)"
      using a by blast
    show "enc = pkEncryptor \<Longrightarrow> hasP C \<Longrightarrow>
       0 < R (PoolQ 0) \<and> 0 < R (PoolP 0) \<and> 0 < R (PoolP 1) \<and> 0 < R (PoolP 2)
       \<and> 0 < R (PkP 0) \<and> 0 < R (PkP 1)" using a by blast
  qed
  then show "returned (Encrypt C enc s0)" by (simp add: returned_iff)
qed

theorem Encrypt_exit_level_and_tags_witness:
  "\<exists>s'. Encrypt cap0 skEncryptor state0 = Ok s' \<and>
     int (length (Coeffs (mem s' (CtValue 0)))) = 1 \<and>
     int (length (Coeffs (mem s' (CtValue 1)))) = 1 \<and>
     IsNTT (mem s' (CtValue 1)) = IsNTT (mem s' (CtValue 0)) \<and>
     capOk cap0 \<and> shaped cap0 shape0 2 1 state0 \<and> shape0 (CtValue 1) = shape0 (CtValue 0) \<and>
     shape0 (CtValue 0) \<le> shape0 (PoolQ 0) \<and> shape0 (CtValue 0) \<le> shape0 SkQ"
proof -
  have w: "capOk cap0" "shaped cap0 shape0 2 1 state0" "shape0 (CtValue 1) = shape0 (CtValue 0)"
    "shape0 (CtValue 0) \<le> shape0 (PoolQ 0)" "shape0 (CtValue 0) \<le> shape0 SkQ"
    using capOk_cap0 shaped_state0 by (simp_all add: shape0_def)
  have "returned (Encrypt cap0 skEncryptor state0)"
    using Encrypt_exit_level_and_tags [of cap0 skEncryptor state0 state0 shape0 2 1] w by simp
  then obtain s' where s': "Encrypt cap0 skEncryptor state0 = Ok s'"
    unfolding returned_iff by blast
  show ?thesis
    using Encrypt_exit_level_and_tags [of cap0 skEncryptor state0 s' shape0 2 1] s' w
    by (simp add: level_state0)
qed

text \<open>
  C9.  On an encryptor bound to a public key, EncryptFromCRP and EncryptRGSW panic, in
  the state in which they were called: nothing is written.  On an encryptor bound to a
  secret key, EncryptFromCRP returns when the capability and the state are well formed,
  the two components of the ciphertext have the same number of rows and the common
  reference polynomial, the buffer and the key have at least as many; EncryptRGSW
  returns, with or without a plaintext, when the capability and the state are well
  formed and the arguments are well formed for the shape of the state.
\<close>

theorem pk_entry_points_panic_sk_return:
  "EncryptFromCRP C pkEncryptor s = Panic ''Cannot encrypt with CRP using a public-key'' s \<and>
   EncryptRGSW C pkEncryptor plaintext_nil s = Panic ''method not implemented'' s \<and>
   (capOk C \<and> shaped C R m n s \<and> R (CtValue 1) = R (CtValue 0) \<and> R (CtValue 1) \<le> R Crp
      \<and> R (CtValue 0) \<le> R (PoolQ 0) \<and> R (CtValue 0) \<le> R SkQ \<longrightarrow>
    returned (EncryptFromCRP C skEncryptor s)) \<and>
   (capOk C \<and> shaped C R m n s \<and> rgswOk C R m n plaintext_nil \<longrightarrow>
    returned (EncryptRGSW C skEncryptor plaintext_nil s))"
proof (intro conjI impI)
  show "EncryptFromCRP C pkEncryptor s = Panic ''Cannot encrypt with CRP using a public-key'' s"
    by (simp add: EncryptFromCRP_def)
  show "EncryptRGSW C pkEncryptor plaintext_nil s = Panic ''method not implemented'' s"
    by (simp add: EncryptRGSW_def)
next
  assume a: "capOk C \<and> shaped C R m n s \<and> R (CtValue 1) = R (CtValue 0) \<and> R (CtValue 1) \<le> R Crp
      \<and> R (CtValue 0) \<le> R (PoolQ 0) \<and> R (CtValue 0) \<le> R SkQ"
  have "\<exists>s'. EncryptFromCRP C skEncryptor s = Ok s'"
  proof (rule EncryptFromCRP_sk_returns [where R = R and m = m and n = n])
    show "capOk C" using a by blast
    show "shaped C R m n s" using a by blast
    show "R (CtValue 1) = R (CtValue 0)" using a by blast
    show "R (CtValue 1) \<le> R Crp" using a by blast
    show "R (CtValue 0) \<le> R (PoolQ 0)" using a by blast
    show "R (CtValue 0) \<le> R SkQ" using a by blast
  qed
  then show "returned (EncryptFromCRP C skEncryptor s)" by (simp add: returned_iff)
next
  assume a: "capOk C \<and> shaped C R m n s \<and> rgswOk C R m n plaintext_nil"
  have "\<exists>s'. skEncryptor_EncryptRGSW C plaintext_nil s = Ok s'"
  proof (rule skEncryptor_EncryptRGSW_returns [where R = R and m = m and n = n])
    show "capOk C" using a by blast
    show "shaped C R m n s" using a by blast
    show "rgswOk C R m n plaintext_nil" using a by blast
  qed
  then show "returned (EncryptRGSW C skEncryptor plaintext_nil s)"
    by (simp add: returned_iff EncryptRGSW_def)
qed

theorem pk_entry_points_panic_sk_return_witness:
  "EncryptFromCRP cap0 pkEncryptor state0
     = Panic ''Cannot encrypt with CRP using a public-key'' state0 \<and>
   EncryptRGSW cap0 pkEncryptor False state0 = Panic ''method not implemented'' state0 \<and>
   returned (EncryptFromCRP cap0 skEncryptor state0) \<and>
   returned (EncryptRGSW cap0 skEncryptor False state0) \<and>
   capOk cap0 \<and> shaped cap0 shape0 2 1 state0 \<and> rgswOk cap0 shape0 2 1 False \<and>
   shape0 (CtValue 1) = shape0 (CtValue 0) \<and> shape0 (CtValue 1) \<le> shape0 Crp \<and>
   shape0 (CtValue 0) \<le> shape0 (PoolQ 0) \<and> shape0 (CtValue 0) \<le> shape0 SkQ"
proof -
  have w: "capOk cap0" "shaped cap0 shape0 2 1 state0" "rgswOk cap0 shape0 2 1 False"
    "shape0 (CtValue 1) = shape0 (CtValue 0)" "shape0 (CtValue 1) \<le> shape0 Crp"
    "shape0 (CtValue 0) \<le> shape0 (PoolQ 0)" "shape0 (CtValue 0) \<le> shape0 SkQ"
    using capOk_cap0 shaped_state0 rgswOk_shape0 [of False] by (simp_all add: shape0_def)
  show ?thesis
    using pk_entry_points_panic_sk_return [of cap0 state0 False shape0 2 1] w by simp
qed



end
